theory Spec2Isabelle
  imports Main "HOL-Library.Multiset"
begin

section \<open>The falling-block engine of \<open>src/puzzle_game/tetris.py\<close>\<close>

text \<open>
  The class \<open>Tetris\<close> is embedded as a record of its attributes and one function per
  method. A method that mutates \<open>self\<close> takes the record and returns the updated one,
  next to the method's return value. Every place where Python can raise (an index out of
  range, \<open>pop\<close> on an empty list) is a branch returning \<open>Inl\<close>; the two \<open>while\<close>
  loops are \<open>partial_function\<close>s in the option monad, so that a loop that does not
  return has the value \<open>None\<close>.
\<close>

subsection \<open>Python values and list operations\<close>

datatype py_error = IndexError

text \<open>
  Index resolution shared by \<open>xs[i]\<close>, \<open>xs[i] = v\<close> and \<open>del xs[i]\<close> on a list of
  \<open>len\<close> elements: \<open>-len \<le> i < 0\<close> counts from the end, anything outside
  \<open>-len \<le> i < len\<close> raises \<open>IndexError\<close>.
\<close>

definition py_index :: "nat \<Rightarrow> int \<Rightarrow> py_error + nat" where
  "py_index len i =
     (if 0 \<le> i \<and> i < int len then Inr (nat i)
      else if i < 0 \<and> - int len \<le> i then Inr (nat (int len + i))
      else Inl IndexError)"

definition py_get :: "'a list \<Rightarrow> int \<Rightarrow> py_error + 'a" where
  "py_get xs i = (case py_index (length xs) i of Inl e \<Rightarrow> Inl e | Inr j \<Rightarrow> Inr (xs ! j))"

definition py_set :: "'a list \<Rightarrow> int \<Rightarrow> 'a \<Rightarrow> py_error + 'a list" where
  "py_set xs i v =
     (case py_index (length xs) i of Inl e \<Rightarrow> Inl e | Inr j \<Rightarrow> Inr (xs[j := v]))"

definition py_del :: "'a list \<Rightarrow> int \<Rightarrow> py_error + 'a list" where
  "py_del xs i =
     (case py_index (length xs) i of
        Inl e \<Rightarrow> Inl e
      | Inr j \<Rightarrow> Inr (take j xs @ drop (Suc j) xs))"

subsection \<open>The piece catalog\<close>

datatype piece_kind = Kind_I | Kind_O | Kind_T | Kind_S | Kind_Z | Kind_J | Kind_L

type_synonym cell = "int \<times> int"
type_synonym piece = "cell list"
type_synonym board = "piece_kind option list list"

text \<open>The dictionary \<open>TETROMINOES\<close>: for each of its seven keys the four rotation states.\<close>

fun TETROMINOES :: "piece_kind \<Rightarrow> piece list" where
  "TETROMINOES Kind_I =
     [[(0, 1), (1, 1), (2, 1), (3, 1)],
      [(2, 0), (2, 1), (2, 2), (2, 3)],
      [(0, 2), (1, 2), (2, 2), (3, 2)],
      [(1, 0), (1, 1), (1, 2), (1, 3)]]"
| "TETROMINOES Kind_O =
     [[(1, 0), (2, 0), (1, 1), (2, 1)],
      [(1, 0), (2, 0), (1, 1), (2, 1)],
      [(1, 0), (2, 0), (1, 1), (2, 1)],
      [(1, 0), (2, 0), (1, 1), (2, 1)]]"
| "TETROMINOES Kind_T =
     [[(1, 0), (0, 1), (1, 1), (2, 1)],
      [(1, 0), (1, 1), (2, 1), (1, 2)],
      [(0, 1), (1, 1), (2, 1), (1, 2)],
      [(1, 0), (0, 1), (1, 1), (1, 2)]]"
| "TETROMINOES Kind_S =
     [[(1, 0), (2, 0), (0, 1), (1, 1)],
      [(1, 0), (1, 1), (2, 1), (2, 2)],
      [(1, 1), (2, 1), (0, 2), (1, 2)],
      [(0, 0), (0, 1), (1, 1), (1, 2)]]"
| "TETROMINOES Kind_Z =
     [[(0, 0), (1, 0), (1, 1), (2, 1)],
      [(2, 0), (1, 1), (2, 1), (1, 2)],
      [(0, 1), (1, 1), (1, 2), (2, 2)],
      [(1, 0), (0, 1), (1, 1), (0, 2)]]"
| "TETROMINOES Kind_J =
     [[(0, 0), (0, 1), (1, 1), (2, 1)],
      [(1, 0), (2, 0), (1, 1), (1, 2)],
      [(0, 1), (1, 1), (2, 1), (2, 2)],
      [(1, 0), (1, 1), (0, 2), (1, 2)]]"
| "TETROMINOES Kind_L =
     [[(2, 0), (0, 1), (1, 1), (2, 1)],
      [(1, 0), (1, 1), (1, 2), (2, 2)],
      [(0, 1), (1, 1), (2, 1), (0, 2)],
      [(0, 0), (1, 0), (1, 1), (1, 2)]]"

text \<open>\<open>list(TETROMINOES.keys())\<close>, in the insertion order of the dictionary.\<close>

definition TETROMINOES_keys :: "piece_kind list" where
  "TETROMINOES_keys = [Kind_I, Kind_O, Kind_T, Kind_S, Kind_Z, Kind_J, Kind_L]"

definition BOARD_WIDTH :: int where
  "BOARD_WIDTH = 10"

definition BOARD_HEIGHT :: int where
  "BOARD_HEIGHT = 20"

subsection \<open>The game object\<close>

text \<open>
  The attributes set in \<open>__init__\<close>. The constructor calls \<open>spawn_piece\<close> before it
  returns, so outside of it \<open>current_piece\<close> and \<open>current_type\<close> are never
  \<open>None\<close>; \<open>next_type\<close> is tested for \<open>None\<close> by \<open>spawn_piece\<close> and stays
  an option. The module \<open>random\<close> is outside the repository: its hidden state is the pair
  \<open>rng\<close>, \<open>rng_calls\<close>, where \<open>rng n xs\<close> is the order in which the \<open>n\<close>-th call of
  \<open>random.shuffle\<close> leaves the list \<open>xs\<close>.
\<close>

record tetris =
  board :: board
  score :: int
  level :: int
  lines_cleared :: int
  game_over :: bool
  paused :: bool
  bag :: "piece_kind list"
  current_piece :: piece
  current_type :: piece_kind
  current_rotation :: int
  current_x :: int
  current_y :: int
  next_type :: "piece_kind option"
  rng :: "nat \<Rightarrow> piece_kind list \<Rightarrow> piece_kind list"
  rng_calls :: nat

subsection \<open>\<open>get_next_piece_type\<close>\<close>

definition get_next_piece_type :: "tetris \<Rightarrow> py_error + piece_kind \<times> tetris" where
  "get_next_piece_type s =
     (let s1 = (if bag s = []
                then s\<lparr>bag := rng s (rng_calls s) TETROMINOES_keys,
                       rng_calls := Suc (rng_calls s)\<rparr>
                else s)
      in if bag s1 = [] then Inl IndexError
         else Inr (last (bag s1), s1\<lparr>bag := butlast (bag s1)\<rparr>))"

subsection \<open>\<open>is_valid_position\<close>\<close>

fun is_valid_position :: "board \<Rightarrow> int \<Rightarrow> int \<Rightarrow> piece \<Rightarrow> py_error + bool" where
  "is_valid_position b x y [] = Inr True"
| "is_valid_position b x y ((px, py) # rest) =
     (let new_x = x + px; new_y = y + py
      in if new_x < 0 \<or> new_x \<ge> BOARD_WIDTH then Inr False
         else if new_y \<ge> BOARD_HEIGHT then Inr False
         else if new_y \<ge> 0 then
           (case py_get b new_y of
              Inl e \<Rightarrow> Inl e
            | Inr row \<Rightarrow>
                (case py_get row new_x of
                   Inl e \<Rightarrow> Inl e
                 | Inr c \<Rightarrow> if c \<noteq> None then Inr False else is_valid_position b x y rest))
         else is_valid_position b x y rest)"

subsection \<open>\<open>spawn_piece\<close>\<close>

definition spawn_piece :: "tetris \<Rightarrow> py_error + tetris" where
  "spawn_piece s =
     (case (case next_type s of
              Some k \<Rightarrow> Inr (k, s)
            | None \<Rightarrow> get_next_piece_type s) of
        Inl e \<Rightarrow> Inl e
      | Inr (k, s1) \<Rightarrow>
          (case get_next_piece_type (s1\<lparr>current_type := k\<rparr>) of
             Inl e \<Rightarrow> Inl e
           | Inr (n, s2) \<Rightarrow>
               (case py_get (TETROMINOES k) 0 of
                  Inl e \<Rightarrow> Inl e
                | Inr p \<Rightarrow>
                    (let s3 = s2\<lparr>next_type := Some n, current_rotation := 0,
                                 current_piece := p,
                                 current_x := BOARD_WIDTH div 2 - 2, current_y := 0\<rparr>
                     in case is_valid_position (board s3) (current_x s3) (current_y s3)
                               (current_piece s3) of
                          Inl e \<Rightarrow> Inl e
                        | Inr ok \<Rightarrow> Inr (if \<not> ok then s3\<lparr>game_over := True\<rparr> else s3)))))"

subsection \<open>\<open>move\<close> and \<open>rotate\<close>\<close>

definition move :: "int \<Rightarrow> int \<Rightarrow> tetris \<Rightarrow> py_error + bool \<times> tetris" where
  "move dx dy s =
     (let new_x = current_x s + dx; new_y = current_y s + dy
      in case is_valid_position (board s) new_x new_y (current_piece s) of
           Inl e \<Rightarrow> Inl e
         | Inr ok \<Rightarrow>
             if ok then Inr (True, s\<lparr>current_x := new_x, current_y := new_y\<rparr>)
             else Inr (False, s))"

text \<open>The loop over \<open>kicks\<close> in \<open>rotate\<close>.\<close>

fun try_kicks :: "cell list \<Rightarrow> int \<Rightarrow> piece \<Rightarrow> tetris \<Rightarrow> py_error + bool \<times> tetris" where
  "try_kicks [] new_rotation new_piece s = Inr (False, s)"
| "try_kicks ((kick_x, kick_y) # kicks) new_rotation new_piece s =
     (case is_valid_position (board s) (current_x s + kick_x) (current_y s + kick_y)
             new_piece of
        Inl e \<Rightarrow> Inl e
      | Inr ok \<Rightarrow>
          if ok
          then Inr (True, s\<lparr>current_x := current_x s + kick_x,
                             current_y := current_y s + kick_y,
                             current_rotation := new_rotation,
                             current_piece := new_piece\<rparr>)
          else try_kicks kicks new_rotation new_piece s)"

definition rotate :: "tetris \<Rightarrow> py_error + bool \<times> tetris" where
  "rotate s =
     (let new_rotation = (current_rotation s + 1) mod 4
      in case py_get (TETROMINOES (current_type s)) new_rotation of
           Inl e \<Rightarrow> Inl e
         | Inr new_piece \<Rightarrow>
             (case is_valid_position (board s) (current_x s) (current_y s) new_piece of
                Inl e \<Rightarrow> Inl e
              | Inr ok \<Rightarrow>
                  if ok
                  then Inr (True, s\<lparr>current_rotation := new_rotation,
                                     current_piece := new_piece\<rparr>)
                  else try_kicks [(-1, 0), (1, 0), (-2, 0), (2, 0), (0, -1)]
                         new_rotation new_piece s))"

subsection \<open>\<open>clear_lines\<close>\<close>

text \<open>The first loop: \<open>for y in range(BOARD_HEIGHT)\<close>, appending to \<open>lines_to_clear\<close>.\<close>

fun find_complete :: "board \<Rightarrow> int list \<Rightarrow> int list \<Rightarrow> py_error + int list" where
  "find_complete b [] lines_to_clear = Inr lines_to_clear"
| "find_complete b (y # ys) lines_to_clear =
     (case py_get b y of
        Inl e \<Rightarrow> Inl e
      | Inr row \<Rightarrow>
          find_complete b ys
            (if list_all (\<lambda>cell. cell \<noteq> None) row then lines_to_clear @ [y]
             else lines_to_clear))"

text \<open>The second loop: \<open>del self.board[y]\<close>, then a new empty row inserted at index 0.\<close>

fun delete_lines :: "int list \<Rightarrow> board \<Rightarrow> py_error + board" where
  "delete_lines [] b = Inr b"
| "delete_lines (y # ys) b =
     (case py_del b y of
        Inl e \<Rightarrow> Inl e
      | Inr b' \<Rightarrow> delete_lines ys (replicate (nat BOARD_WIDTH) None # b'))"

text \<open>The dictionary lookup \<open>points.get(num_lines, 800)\<close>.\<close>

definition points_get :: "int \<Rightarrow> int" where
  "points_get num_lines =
     (if num_lines = 1 then 100 else if num_lines = 2 then 300
      else if num_lines = 3 then 500 else if num_lines = 4 then 800 else 800)"

text \<open>
  The method has no \<open>return\<close> statement: the value of a call is Python's \<open>None\<close>,
  the first component of the result.
\<close>

definition clear_lines :: "tetris \<Rightarrow> py_error + int option \<times> tetris" where
  "clear_lines s =
     (case find_complete (board s) (map int [0..<nat BOARD_HEIGHT]) [] of
        Inl e \<Rightarrow> Inl e
      | Inr lines_to_clear \<Rightarrow>
          (case delete_lines lines_to_clear (board s) of
             Inl e \<Rightarrow> Inl e
           | Inr b \<Rightarrow>
               (let s1 = s\<lparr>board := b\<rparr>;
                    num_lines = int (length lines_to_clear)
                in if num_lines > 0
                   then (let s2 = s1\<lparr>lines_cleared := lines_cleared s1 + num_lines\<rparr>;
                             s3 = s2\<lparr>score := score s2 + points_get num_lines * level s2\<rparr>
                         in Inr (None, s3\<lparr>level := lines_cleared s3 div 10 + 1\<rparr>))
                   else Inr (None, s1))))"

subsection \<open>\<open>lock_piece\<close> and \<open>hard_drop\<close>\<close>

text \<open>The loop of \<open>lock_piece\<close> over the cells of the piece.\<close>

fun lock_cells :: "piece \<Rightarrow> int \<Rightarrow> int \<Rightarrow> piece_kind \<Rightarrow> board \<Rightarrow> py_error + board" where
  "lock_cells [] cx cy k b = Inr b"
| "lock_cells ((px, py) # rest) cx cy k b =
     (let x = cx + px; y = cy + py
      in if 0 \<le> y \<and> y < BOARD_HEIGHT \<and> 0 \<le> x \<and> x < BOARD_WIDTH
         then (case py_get b y of
                 Inl e \<Rightarrow> Inl e
               | Inr row \<Rightarrow>
                   (case py_set row x (Some k) of
                      Inl e \<Rightarrow> Inl e
                    | Inr row' \<Rightarrow>
                        (case py_set b y row' of
                           Inl e \<Rightarrow> Inl e
                         | Inr b' \<Rightarrow> lock_cells rest cx cy k b')))
         else lock_cells rest cx cy k b)"

definition lock_piece :: "tetris \<Rightarrow> py_error + tetris" where
  "lock_piece s =
     (case lock_cells (current_piece s) (current_x s) (current_y s) (current_type s)
             (board s) of
        Inl e \<Rightarrow> Inl e
      | Inr b \<Rightarrow>
          (case clear_lines (s\<lparr>board := b\<rparr>) of
             Inl e \<Rightarrow> Inl e
           | Inr (_, s1) \<Rightarrow> spawn_piece s1))"

text \<open>The loop \<open>while self.move(0, 1): drop_distance += 1\<close>.\<close>

partial_function (option) hard_drop_loop ::
  "tetris \<Rightarrow> int \<Rightarrow> (py_error + tetris \<times> int) option" where
  "hard_drop_loop s drop_distance =
     (case move 0 1 s of
        Inl e \<Rightarrow> Some (Inl e)
      | Inr (moved, s1) \<Rightarrow>
          if moved then hard_drop_loop s1 (drop_distance + 1)
          else Some (Inr (s1, drop_distance)))"

definition hard_drop :: "tetris \<Rightarrow> (py_error + tetris) option" where
  "hard_drop s =
     (case hard_drop_loop s 0 of
        None \<Rightarrow> None
      | Some (Inl e) \<Rightarrow> Some (Inl e)
      | Some (Inr (s1, drop_distance)) \<Rightarrow>
          Some (lock_piece (s1\<lparr>score := score s1 + drop_distance * 2\<rparr>)))"

subsection \<open>\<open>get_ghost_y\<close>\<close>

text \<open>
  The loop \<open>while self.is_valid_position(self.current_x, ghost_y + 1, self.current_piece)\<close>.
  The object is passed along and returned as the loop leaves it.
\<close>

partial_function (option) ghost_loop ::
  "tetris \<Rightarrow> int \<Rightarrow> (py_error + int \<times> tetris) option" where
  "ghost_loop s ghost_y =
     (case is_valid_position (board s) (current_x s) (ghost_y + 1) (current_piece s) of
        Inl e \<Rightarrow> Some (Inl e)
      | Inr ok \<Rightarrow> if ok then ghost_loop s (ghost_y + 1) else Some (Inr (ghost_y, s)))"

definition get_ghost_y :: "tetris \<Rightarrow> (py_error + int \<times> tetris) option" where
  "get_ghost_y s = ghost_loop s (current_y s)"

declare hard_drop_loop.simps [code]
declare ghost_loop.simps [code]

section \<open>Well-formed boards and reference descriptions\<close>

text \<open>
  The playfield as \<open>__init__\<close> builds it and every method keeps it: \<open>BOARD_HEIGHT\<close>
  rows of \<open>BOARD_WIDTH\<close> cells. \<open>cell_at b x y\<close> is \<open>b[y][x]\<close> for indices in range.
\<close>

definition wf_board :: "board \<Rightarrow> bool" where
  "wf_board b \<longleftrightarrow>
     int (length b) = BOARD_HEIGHT \<and> list_all (\<lambda>row. int (length row) = BOARD_WIDTH) b"

definition cell_at :: "board \<Rightarrow> int \<Rightarrow> int \<Rightarrow> piece_kind option" where
  "cell_at b x y = b ! nat y ! nat x"

definition cell_ok :: "board \<Rightarrow> int \<Rightarrow> int \<Rightarrow> cell \<Rightarrow> bool" where
  "cell_ok b x y c \<longleftrightarrow>
     0 \<le> x + fst c \<and> x + fst c < BOARD_WIDTH \<and> y + snd c < BOARD_HEIGHT \<and>
     (0 \<le> y + snd c \<longrightarrow> cell_at b (x + fst c) (y + snd c) = None)"

definition empty_board :: board where
  "empty_board = replicate 20 (replicate 10 None)"

text \<open>
  Rotation as the specification words it: one list of offsets, the unshifted position
  first and then the five wall kicks, and the first offset at which the next layout fits
  is committed.
\<close>

definition rotate_offsets :: "cell list" where
  "rotate_offsets = [(0, 0), (- 1, 0), (1, 0), (- 2, 0), (2, 0), (0, - 1)]"

definition rotate_spec :: "tetris \<Rightarrow> bool \<times> tetris" where
  "rotate_spec s =
     (let r = (current_rotation s + 1) mod 4;
          layout = TETROMINOES (current_type s) ! nat r
      in case find (\<lambda>(dx, dy). is_valid_position (board s) (current_x s + dx)
                                  (current_y s + dy) layout = Inr True) rotate_offsets of
           None \<Rightarrow> (False, s)
         | Some (dx, dy) \<Rightarrow>
             (True, s\<lparr>current_x := current_x s + dx, current_y := current_y s + dy,
                      current_rotation := r, current_piece := layout\<rparr>))"

definition piece_in_catalog :: "tetris \<Rightarrow> bool" where
  "piece_in_catalog s \<longleftrightarrow>
     0 \<le> current_rotation s \<and> current_rotation s < 4 \<and>
     current_piece s = TETROMINOES (current_type s) ! nat (current_rotation s)"

fun rotate_times :: "nat \<Rightarrow> tetris \<Rightarrow> py_error + tetris" where
  "rotate_times 0 s = Inr s"
| "rotate_times (Suc n) s =
     (case rotate s of Inl e \<Rightarrow> Inl e | Inr (_, s1) \<Rightarrow> rotate_times n s1)"

text \<open>
  Example games for concrete runs: a game in progress on board \<open>b\<close> with the piece of
  kind \<open>k\<close> in rotation \<open>r\<close> at offset \<open>(x, y)\<close>, and a shuffle that reverses
  the list it is given.
\<close>

definition example_game :: "board \<Rightarrow> piece_kind \<Rightarrow> int \<Rightarrow> int \<Rightarrow> int \<Rightarrow> tetris" where
  "example_game b k r x y =
     \<lparr>board = b, score = 0, level = 1, lines_cleared = 0, game_over = False,
      paused = False, bag = [Kind_S, Kind_Z], current_piece = TETROMINOES k ! nat r,
      current_type = k, current_rotation = r, current_x = x, current_y = y,
      next_type = Some Kind_T, rng = (\<lambda>n xs. rev xs), rng_calls = 1\<rparr>"

definition wall_state :: tetris where
  "wall_state = example_game empty_board Kind_I 1 (- 2) 5"

text \<open>
  Line clearing: a row is complete when the test \<open>all(cell is not None for cell in row)\<close>
  of \<open>clear_lines\<close> holds; \<open>complete_indices off rows\<close> are the indices of the complete
  rows, counted from \<open>off\<close>; \<open>cleared_board\<close> is the compacted board and
  \<open>line_reward\<close> the reward table of the specification.
\<close>

definition complete_row :: "piece_kind option list \<Rightarrow> bool" where
  "complete_row row \<longleftrightarrow> list_all (\<lambda>cell. cell \<noteq> None) row"

definition empty_row :: "piece_kind option list" where
  "empty_row = replicate (nat BOARD_WIDTH) None"

fun complete_indices :: "nat \<Rightarrow> board \<Rightarrow> nat list" where
  "complete_indices off [] = []"
| "complete_indices off (row # rows) =
     (if complete_row row then [off] else []) @ complete_indices (Suc off) rows"

definition line_reward :: "nat \<Rightarrow> int" where
  "line_reward n = (if n = 1 then 100 else if n = 2 then 300 else if n = 3 then 500 else 800)"

definition cleared_board :: "board \<Rightarrow> board" where
  "cleared_board b =
     replicate (length (filter complete_row b)) empty_row @ filter (\<lambda>row. \<not> complete_row row) b"

definition two_lines_board :: board where
  "two_lines_board =
     replicate 5 (replicate 10 None) @
     [replicate 10 (Some Kind_I), Some Kind_T # replicate 9 None, replicate 10 (Some Kind_O)] @
     replicate 11 (replicate 10 None) @ [replicate 9 (Some Kind_L) @ [None]]"

definition four_lines_board :: board where
  "four_lines_board = replicate 16 (replicate 10 None) @ replicate 4 (replicate 10 (Some Kind_I))"

text \<open>
  The random source and the spawning of pieces. \<open>rng_permutes\<close> is the contract of
  \<open>random.shuffle\<close>: every outcome is a permutation of the list it is given.
  \<open>draw_n n\<close> is \<open>n\<close> consecutive calls of \<open>get_next_piece_type\<close>, and
  \<open>spawning_kind s k\<close> says that \<open>k\<close> is the kind \<open>spawn_piece\<close> makes current:
  \<open>next_type\<close> when it is set, the next draw from the bag otherwise.
\<close>

definition rng_permutes :: "tetris \<Rightarrow> bool" where
  "rng_permutes s \<longleftrightarrow> (\<forall>n xs. mset (rng s n xs) = mset xs)"

fun draw_n :: "nat \<Rightarrow> tetris \<Rightarrow> py_error + piece_kind list \<times> tetris" where
  "draw_n 0 s = Inr ([], s)"
| "draw_n (Suc n) s =
     (case get_next_piece_type s of
        Inl e \<Rightarrow> Inl e
      | Inr (k, s1) \<Rightarrow>
          (case draw_n n s1 of Inl e \<Rightarrow> Inl e | Inr (ks, s2) \<Rightarrow> Inr (k # ks, s2)))"

definition spawning_kind :: "tetris \<Rightarrow> piece_kind \<Rightarrow> bool" where
  "spawning_kind s k \<longleftrightarrow>
     (case next_type s of
        Some n \<Rightarrow> k = n
      | None \<Rightarrow> map_sum id fst (get_next_piece_type s) = Inr k)"

definition empty_bag_state :: tetris where
  "empty_bag_state = (example_game empty_board Kind_T 0 3 0)\<lparr>bag := []\<rparr>"

definition blocked_board :: board where
  "blocked_board = replicate 20 (replicate 4 None @ [Some Kind_I] @ replicate 5 None)"

definition blocked_state :: tetris where
  "blocked_state = example_game blocked_board Kind_I 1 2 0"

text \<open>
  Dropping. \<open>fits s y\<close>: the active piece, with its offset row replaced by \<open>y\<close>, is a
  valid position. \<open>landing s y0 g\<close>: every row below \<open>y0\<close> down to \<open>g\<close> fits and
  the row after \<open>g\<close> does not, which is where a descent from \<open>y0\<close> stops.
\<close>

definition fits :: "tetris \<Rightarrow> int \<Rightarrow> bool" where
  "fits s y \<longleftrightarrow>
     is_valid_position (board s) (current_x s) y (current_piece s) = Inr True"

definition landing :: "tetris \<Rightarrow> int \<Rightarrow> int \<Rightarrow> bool" where
  "landing s y0 g \<longleftrightarrow> y0 \<le> g \<and> (\<forall>y. y0 < y \<and> y \<le> g \<longrightarrow> fits s y) \<and> \<not> fits s (g + 1)"

definition landed_O_board :: board where
  "landed_O_board =
     replicate 18 (replicate 10 None) @
     replicate 2 (replicate 4 None @ [Some Kind_O, Some Kind_O] @ replicate 4 None)"

definition game_over_state :: tetris where
  "game_over_state =
     (example_game blocked_board Kind_T 0 3 0)
       \<lparr>game_over := True, bag := [Kind_S], next_type := Some Kind_Z\<rparr>"

text \<open>
  The key handling of \<open>main\<close> for the keys that move the piece sideways or rotate it:
  each calls one method and discards its result. \<open>play\<close> is a sequence of such keys
  between two gravity ticks, and \<open>drop_distance_after\<close> the number of steps the loop of
  \<open>hard_drop\<close> counts after it.
\<close>

datatype command = MoveLeft | MoveRight | Rotate

fun handle_key :: "command \<Rightarrow> tetris \<Rightarrow> py_error + tetris" where
  "handle_key MoveLeft s = map_sum id snd (move (- 1) 0 s)"
| "handle_key MoveRight s = map_sum id snd (move 1 0 s)"
| "handle_key Rotate s = map_sum id snd (rotate s)"

fun play :: "command list \<Rightarrow> tetris \<Rightarrow> py_error + tetris" where
  "play [] s = Inr s"
| "play (c # cs) s = (case handle_key c s of Inl e \<Rightarrow> Inl e | Inr s1 \<Rightarrow> play cs s1)"

definition drop_distance_after :: "command list \<Rightarrow> tetris \<Rightarrow> (py_error + int) option" where
  "drop_distance_after cs s =
     (case play cs s of
        Inl e \<Rightarrow> Some (Inl e)
      | Inr s1 \<Rightarrow> map_option (map_sum id snd) (hard_drop_loop s1 0))"

definition kick_board :: board where
  "kick_board =
     [[Some Kind_I, Some Kind_I, Some Kind_I, Some Kind_I, None, None, Some Kind_J,
       None, None, None],
      [Some Kind_L, Some Kind_L, Some Kind_L, None, None, None, Some Kind_J,
       None, None, None]] @
     replicate 18
       [Some Kind_L, Some Kind_S, Some Kind_S, None, Some Kind_O, Some Kind_O, Some Kind_J,
        None, None, None]"

definition kick_commands :: "command list" where
  "kick_commands =
     [Rotate, Rotate, Rotate, Rotate, MoveLeft, MoveLeft, MoveLeft,
      Rotate, Rotate, Rotate, Rotate,
      MoveRight, MoveRight, MoveRight, MoveRight, MoveRight, MoveRight, MoveRight]"

text \<open>
  What holds of the game object between calls, once the constructor has returned: the
  board has its shape, the layout of the active piece is the catalog's for its kind and
  rotation index, and the shuffle permutes.
\<close>

definition game_invariant :: "tetris \<Rightarrow> bool" where
  "game_invariant s \<longleftrightarrow> wf_board (board s) \<and> piece_in_catalog s \<and> rng_permutes s"

section \<open>Properties\<close>

subsection \<open>Collision test\<close>

lemma py_index_in_range: "0 \<le> i \<Longrightarrow> i < int len \<Longrightarrow> py_index len i = Inr (nat i)"
  by (simp add: py_index_def)

lemma py_get_in_range: "0 \<le> i \<Longrightarrow> i < int (length xs) \<Longrightarrow> py_get xs i = Inr (xs ! nat i)"
  by (simp add: py_get_def py_index_in_range)

lemma wf_board_row:
  "wf_board b \<Longrightarrow> 0 \<le> y \<Longrightarrow> y < BOARD_HEIGHT \<Longrightarrow> int (length (b ! nat y)) = BOARD_WIDTH"
  by (simp add: wf_board_def list_all_length BOARD_HEIGHT_def)

lemma wf_board_cell:
  assumes "wf_board b" "0 \<le> y" "y < BOARD_HEIGHT" "0 \<le> x" "x < BOARD_WIDTH"
  shows "py_get b y = Inr (b ! nat y)" and "py_get (b ! nat y) x = Inr (cell_at b x y)"
  using assms wf_board_row[OF assms(1-3)]
  by (simp_all add: py_get_in_range wf_board_def cell_at_def)

lemma is_valid_position_wf:
  "wf_board b \<Longrightarrow> is_valid_position b x y p = Inr (list_all (cell_ok b x y) p)"
proof (induction p)
  case Nil
  then show ?case by simp
next
  case (Cons c p)
  obtain px py where c: "c = (px, py)" by (cases c)
  show ?case
  proof (cases "0 \<le> x + px \<and> x + px < BOARD_WIDTH \<and> y + py < BOARD_HEIGHT \<and> 0 \<le> y + py")
    case True
    then show ?thesis
      using Cons wf_board_cell[OF Cons.prems, of "y + py" "x + px"]
      by (simp add: c cell_ok_def)
  next
    case False
    then show ?thesis
      using Cons by (auto simp: c cell_ok_def Let_def)
  qed
qed

lemma wf_empty_board: "wf_board empty_board"
  by (simp add: wf_board_def empty_board_def BOARD_HEIGHT_def BOARD_WIDTH_def list_all_iff)

lemma list_all_cell_ok:
  "list_all (cell_ok b x y) p \<longleftrightarrow>
     (\<forall>(px, py) \<in> set p.
        0 \<le> x + px \<and> x + px < BOARD_WIDTH \<and> y + py < BOARD_HEIGHT \<and>
        (0 \<le> y + py \<longrightarrow> cell_at b (x + px) (y + py) = None))"
  by (auto simp: list_all_iff cell_ok_def)

text \<open>
  Claim C3. On a playfield of 20 rows of 10 cells, \<open>is_valid_position\<close> returns true
  exactly when every absolute cell of the piece has \<open>0 \<le> x < 10\<close>, \<open>y < 20\<close> and, for
  \<open>y \<ge> 0\<close>, an empty board cell at \<open>(x, y)\<close>. So a placement whose cells are all
  above the board is accepted for any columns in range, and a placement with a cell
  outside the horizontal or bottom bounds or on an occupied cell is rejected.
\<close>

theorem is_valid_position_iff:
  assumes "wf_board b"
  shows "is_valid_position b x y piece =
           Inr (\<forall>(px, py) \<in> set piece.
                  0 \<le> x + px \<and> x + px < BOARD_WIDTH \<and> y + py < BOARD_HEIGHT \<and>
                  (0 \<le> y + py \<longrightarrow> cell_at b (x + px) (y + py) = None)) \<and>
         ((\<forall>(px, py) \<in> set piece. 0 \<le> x + px \<and> x + px < BOARD_WIDTH \<and> y + py < 0)
            \<longrightarrow> is_valid_position b x y piece = Inr True) \<and>
         ((\<exists>(px, py) \<in> set piece.
             x + px < 0 \<or> BOARD_WIDTH \<le> x + px \<or> BOARD_HEIGHT \<le> y + py \<or>
             (0 \<le> y + py \<and> cell_at b (x + px) (y + py) \<noteq> None))
            \<longrightarrow> is_valid_position b x y piece = Inr False)"
proof -
  have eq: "is_valid_position b x y piece =
           Inr (\<forall>(px, py) \<in> set piece.
                  0 \<le> x + px \<and> x + px < BOARD_WIDTH \<and> y + py < BOARD_HEIGHT \<and>
                  (0 \<le> y + py \<longrightarrow> cell_at b (x + px) (y + py) = None))"
    using assms by (simp add: is_valid_position_wf list_all_cell_ok)
  have above: "is_valid_position b x y piece = Inr True"
    if "\<forall>(px, py) \<in> set piece. 0 \<le> x + px \<and> x + px < BOARD_WIDTH \<and> y + py < 0"
    unfolding eq using that by (fastforce simp: BOARD_HEIGHT_def)
  have rejected: "is_valid_position b x y piece = Inr False"
    if "\<exists>(px, py) \<in> set piece.
             x + px < 0 \<or> BOARD_WIDTH \<le> x + px \<or> BOARD_HEIGHT \<le> y + py \<or>
             (0 \<le> y + py \<and> cell_at b (x + px) (y + py) \<noteq> None)"
    unfolding eq using that by fastforce
  from eq above rejected show ?thesis by blast
qed

theorem is_valid_position_iff_witness:
  "wf_board empty_board \<and>
   is_valid_position empty_board 3 (- 2) [(1, 0), (2, 0), (1, 1), (2, 1)] = Inr True \<and>
   is_valid_position empty_board 8 5 [(1, 0), (2, 0), (1, 1), (2, 1)] = Inr False"
proof -
  let ?p = "[(1, 0), (2, 0), (1, 1), (2, 1)] :: piece"
  have above: "\<forall>(px, py) \<in> set ?p. 0 \<le> 3 + px \<and> 3 + px < BOARD_WIDTH \<and> - 2 + py < 0"
    by (simp add: BOARD_WIDTH_def)
  have outside: "\<exists>(px, py) \<in> set ?p.
      8 + px < 0 \<or> BOARD_WIDTH \<le> 8 + px \<or> BOARD_HEIGHT \<le> 5 + py \<or>
      (0 \<le> 5 + py \<and> cell_at empty_board (8 + px) (5 + py) \<noteq> None)"
    by (simp add: BOARD_WIDTH_def)
  from is_valid_position_iff [OF wf_empty_board, of 3 "- 2" ?p] above
  have "is_valid_position empty_board 3 (- 2) ?p = Inr True" by blast
  moreover from is_valid_position_iff [OF wf_empty_board, of 8 5 ?p] outside
  have "is_valid_position empty_board 8 5 ?p = Inr False" by blast
  ultimately show ?thesis using wf_empty_board by blast
qed

subsection \<open>Rotation\<close>

lemma length_TETROMINOES: "length (TETROMINOES k) = 4"
  by (cases k) simp_all

lemma py_get_TETROMINOES:
  "0 \<le> r \<Longrightarrow> r < 4 \<Longrightarrow> py_get (TETROMINOES k) r = Inr (TETROMINOES k ! nat r)"
  by (simp add: py_get_in_range length_TETROMINOES)

lemma try_kicks_wf:
  "wf_board (board s) \<Longrightarrow>
   try_kicks kicks r p s =
     Inr (case find (\<lambda>(dx, dy). is_valid_position (board s) (current_x s + dx)
                                  (current_y s + dy) p = Inr True) kicks of
            None \<Rightarrow> (False, s)
          | Some (dx, dy) \<Rightarrow>
              (True, s\<lparr>current_x := current_x s + dx, current_y := current_y s + dy,
                       current_rotation := r, current_piece := p\<rparr>))"
  by (induction kicks) (auto simp: is_valid_position_wf)

lemma rotate_eq_spec: "wf_board (board s) \<Longrightarrow> rotate s = Inr (rotate_spec s)"
proof -
  assume wf: "wf_board (board s)"
  let ?r = "(current_rotation s + 1) mod 4"
  have get: "py_get (TETROMINOES (current_type s)) ?r = Inr (TETROMINOES (current_type s) ! nat ?r)"
    by (rule py_get_TETROMINOES) simp_all
  show ?thesis
    using wf
    by (simp add: rotate_def rotate_spec_def rotate_offsets_def get try_kicks_wf
        is_valid_position_wf Let_def)
qed

text \<open>
  Claim C4. \<open>rotate\<close> takes the layout of rotation index \<open>(r + 1) mod 4\<close> and tries
  it without offset and then at the kicks \<open>(-1,0)\<close>, \<open>(1,0)\<close>, \<open>(-2,0)\<close>, \<open>(2,0)\<close>,
  \<open>(0,-1)\<close>, in this order. The first offset at which the layout is valid is committed
  (offset, rotation index and layout updated) and the call returns true; when none is
  valid the call returns false and the game is unchanged.
\<close>

theorem rotate_refines_spec:
  assumes "wf_board (board s)"
  defines "r \<equiv> (current_rotation s + 1) mod 4"
  defines "layout \<equiv> TETROMINOES (current_type s) ! nat r"
  defines "valid_at \<equiv> \<lambda>(dx, dy).
     is_valid_position (board s) (current_x s + dx) (current_y s + dy) layout = Inr True"
  shows "rotate s = Inr (rotate_spec s) \<and>
         (\<forall>i < length rotate_offsets.
            valid_at (rotate_offsets ! i) \<and> (\<forall>j < i. \<not> valid_at (rotate_offsets ! j)) \<longrightarrow>
            rotate s =
              Inr (True, s\<lparr>current_x := current_x s + fst (rotate_offsets ! i),
                            current_y := current_y s + snd (rotate_offsets ! i),
                            current_rotation := r, current_piece := layout\<rparr>)) \<and>
         ((\<forall>d \<in> set rotate_offsets. \<not> valid_at d) \<longrightarrow> rotate s = Inr (False, s))"
proof (intro conjI allI impI)
  show eq: "rotate s = Inr (rotate_spec s)"
    using assms(1) by (rule rotate_eq_spec)
  show "rotate s =
          Inr (True, s\<lparr>current_x := current_x s + fst (rotate_offsets ! i),
                        current_y := current_y s + snd (rotate_offsets ! i),
                        current_rotation := r, current_piece := layout\<rparr>)"
    if "i < length rotate_offsets"
      and "valid_at (rotate_offsets ! i) \<and> (\<forall>j < i. \<not> valid_at (rotate_offsets ! j))" for i
  proof -
    from that have "find valid_at rotate_offsets = Some (rotate_offsets ! i)"
      unfolding find_Some_iff by blast
    then show ?thesis
      unfolding eq rotate_spec_def
      by (simp add: Let_def valid_at_def r_def layout_def case_prod_beta)
  qed
  show "rotate s = Inr (False, s)" if "\<forall>d \<in> set rotate_offsets. \<not> valid_at d"
  proof -
    from that have "find valid_at rotate_offsets = None"
      unfolding find_None_iff by blast
    then show ?thesis
      unfolding eq rotate_spec_def
      by (simp add: Let_def valid_at_def r_def layout_def)
  qed
qed

theorem rotate_refines_spec_witness:
  "wf_board (board wall_state) \<and>
   rotate wall_state =
     Inr (True, wall_state\<lparr>current_x := 0, current_rotation := 2,
                           current_piece := [(0, 2), (1, 2), (2, 2), (3, 2)]\<rparr>)"
proof -
  have wf: "wf_board (board wall_state)"
    by (simp add: wall_state_def example_game_def wf_empty_board)
  have "rotate_spec wall_state =
     (True, wall_state\<lparr>current_x := 0, current_rotation := 2,
                        current_piece := [(0, 2), (1, 2), (2, 2), (3, 2)]\<rparr>)"
    by (simp add: rotate_spec_def rotate_offsets_def wall_state_def example_game_def
        empty_board_def BOARD_WIDTH_def BOARD_HEIGHT_def py_get_def py_index_def)
  with rotate_refines_spec [OF wf] wf show ?thesis by simp
qed

lemma catalog_layouts:
  "p \<in> set (TETROMINOES k) \<Longrightarrow>
     length p = 4 \<and> distinct p \<and> (\<forall>(px, py) \<in> set p. 0 \<le> px \<and> px < 4 \<and> 0 \<le> py \<and> py < 4)"
  by (cases k) auto

lemma rotate_no_offset:
  assumes "wf_board (board s)"
    and "is_valid_position (board s) (current_x s) (current_y s)
           (TETROMINOES (current_type s) ! nat ((current_rotation s + 1) mod 4)) = Inr True"
  shows "rotate s =
           Inr (True, s\<lparr>current_rotation := (current_rotation s + 1) mod 4,
                         current_piece :=
                           TETROMINOES (current_type s) ! nat ((current_rotation s + 1) mod 4)\<rparr>)"
  using assms by (simp add: rotate_eq_spec rotate_spec_def rotate_offsets_def Let_def)

text \<open>
  Claim C8. Every kind has four rotation states, each of four distinct cells inside the
  4 by 4 frame. When the unshifted rotation is valid at each step, \<open>n\<close> calls of
  \<open>rotate\<close> leave the piece at rotation index \<open>(r + n) mod 4\<close> with that layout, and
  four calls give back the game as it was.
\<close>

theorem rotate_four_times:
  "(\<forall>k. length (TETROMINOES k) = 4 \<and>
        (\<forall>p \<in> set (TETROMINOES k).
           length p = 4 \<and> distinct p \<and>
           (\<forall>(px, py) \<in> set p. 0 \<le> px \<and> px < 4 \<and> 0 \<le> py \<and> py < 4))) \<and>
   (wf_board (board s) \<and> piece_in_catalog s \<and>
    (\<forall>i \<in> {1, 2, 3, 4}.
       is_valid_position (board s) (current_x s) (current_y s)
         (TETROMINOES (current_type s) ! nat ((current_rotation s + i) mod 4)) = Inr True)
    \<longrightarrow> (\<forall>n \<le> 4. rotate_times n s =
                 Inr (s\<lparr>current_rotation := (current_rotation s + int n) mod 4,
                        current_piece := TETROMINOES (current_type s)
                                           ! nat ((current_rotation s + int n) mod 4)\<rparr>)) \<and>
         rotate_times 4 s = Inr s)"
proof -
  have catalog: "\<forall>k. length (TETROMINOES k) = 4 \<and>
        (\<forall>p \<in> set (TETROMINOES k).
           length p = 4 \<and> distinct p \<and>
           (\<forall>(px, py) \<in> set p. 0 \<le> px \<and> px < 4 \<and> 0 \<le> py \<and> py < 4))"
    using length_TETROMINOES catalog_layouts by blast
  have cycle: "(\<forall>n \<le> 4. rotate_times n s =
                 Inr (s\<lparr>current_rotation := (current_rotation s + int n) mod 4,
                        current_piece := TETROMINOES (current_type s)
                                           ! nat ((current_rotation s + int n) mod 4)\<rparr>)) \<and>
         rotate_times 4 s = Inr s"
    if h: "wf_board (board s) \<and> piece_in_catalog s \<and>
    (\<forall>i \<in> {1, 2, 3, 4}.
       is_valid_position (board s) (current_x s) (current_y s)
         (TETROMINOES (current_type s) ! nat ((current_rotation s + i) mod 4)) = Inr True)"
  proof (intro conjI allI impI)
  let ?k = "current_type s" and ?r = "current_rotation s"
  let ?st = "\<lambda>n::nat. s\<lparr>current_rotation := (?r + int n) mod 4,
                     current_piece := TETROMINOES ?k ! nat ((?r + int n) mod 4)\<rparr>"
  from h have wf: "wf_board (board s)" and cat: "piece_in_catalog s" by blast+
  from cat have s0: "?st 0 = s"
    by (simp add: piece_in_catalog_def)
  have step: "rotate (?st n) = Inr (True, ?st (Suc n))" if "n < 4" for n
  proof -
    have m: "((?r + int n) mod 4 + 1) mod 4 = (?r + int (Suc n)) mod 4"
      by (simp add: mod_simps algebra_simps)
    from that have "int (Suc n) \<in> {1, 2, 3, 4}" by auto
    with h have "is_valid_position (board s) (current_x s) (current_y s)
         (TETROMINOES ?k ! nat ((?r + int (Suc n)) mod 4)) = Inr True" by blast
    then show ?thesis
      using rotate_no_offset [of "?st n"] wf m by simp
  qed
  have iter: "rotate_times n (?st m) = Inr (?st (m + n))" if "m + n \<le> 4" for n m
    using that
  proof (induction n arbitrary: m)
    case 0
    then show ?case by simp
  next
    case (Suc n)
    then have "rotate (?st m) = Inr (True, ?st (Suc m))" by (intro step) simp
    moreover have "rotate_times n (?st (Suc m)) = Inr (?st (Suc m + n))"
      using Suc.prems by (intro Suc.IH) simp
    ultimately show ?case by simp
  qed
  show "rotate_times n s = Inr (?st n)" if "n \<le> 4" for n
    using iter [of 0 n] that s0 by simp
  have "?st 4 = s"
    using cat by (simp add: piece_in_catalog_def)
  with iter [of 0 4] s0 show "rotate_times 4 s = Inr s" by simp
  qed
  from catalog cycle show ?thesis by blast
qed

theorem rotate_four_times_witness:
  "wf_board (board (example_game empty_board Kind_T 0 3 5)) \<and>
   piece_in_catalog (example_game empty_board Kind_T 0 3 5) \<and>
   is_valid_position empty_board 3 5 (TETROMINOES Kind_T ! 1) = Inr True \<and>
   is_valid_position empty_board 3 5 (TETROMINOES Kind_T ! 2) = Inr True \<and>
   is_valid_position empty_board 3 5 (TETROMINOES Kind_T ! 3) = Inr True \<and>
   is_valid_position empty_board 3 5 (TETROMINOES Kind_T ! 0) = Inr True \<and>
   rotate_times 4 (example_game empty_board Kind_T 0 3 5) =
     Inr (example_game empty_board Kind_T 0 3 5)"
proof -
  let ?s = "example_game empty_board Kind_T 0 3 5"
  have wf: "wf_board (board ?s)"
    by (simp add: example_game_def wf_empty_board)
  have cat: "piece_in_catalog ?s"
    by (simp add: example_game_def piece_in_catalog_def)
  have v: "is_valid_position empty_board 3 5 (TETROMINOES Kind_T ! 1) = Inr True"
    "is_valid_position empty_board 3 5 (TETROMINOES Kind_T ! 2) = Inr True"
    "is_valid_position empty_board 3 5 (TETROMINOES Kind_T ! 3) = Inr True"
    "is_valid_position empty_board 3 5 (TETROMINOES Kind_T ! 0) = Inr True"
    by (simp_all add: empty_board_def BOARD_WIDTH_def BOARD_HEIGHT_def py_get_def py_index_def)
  have "\<forall>i \<in> {1, 2, 3, 4}.
       is_valid_position (board ?s) (current_x ?s) (current_y ?s)
         (TETROMINOES (current_type ?s) ! nat ((current_rotation ?s + i) mod 4)) = Inr True"
    using v by (simp add: example_game_def)
  with rotate_four_times [of ?s] wf cat have "rotate_times 4 ?s = Inr ?s" by blast
  with wf cat v show ?thesis by blast
qed

subsection \<open>Line clearing and its score\<close>

lemma find_complete_scan:
  "find_complete (pre @ rest) (map int [length pre ..< length pre + length rest]) acc =
     Inr (acc @ map int (complete_indices (length pre) rest))"
proof (induction rest arbitrary: pre acc)
  case Nil
  then show ?case by simp
next
  case (Cons row rows)
  have get: "py_get (pre @ row # rows) (int (length pre)) = Inr row"
    by (simp add: py_get_in_range)
  have range: "[length pre ..< length pre + length (row # rows)] =
                 length pre # [length (pre @ [row]) ..< length (pre @ [row]) + length rows]"
    by (simp add: upt_conv_Cons del: upt_Suc)
  have "find_complete ((pre @ [row]) @ rows)
          (map int [length (pre @ [row]) ..< length (pre @ [row]) + length rows]) acc' =
        Inr (acc' @ map int (complete_indices (length (pre @ [row])) rows))" for acc'
    by (rule Cons.IH)
  then show ?case
    unfolding range by (simp add: get complete_row_def)
qed

lemma delete_lines_compact:
  "delete_lines (map int (complete_indices (length pre) rest)) (pre @ rest) =
     Inr (replicate (length (filter complete_row rest)) empty_row @ pre @
          filter (\<lambda>row. \<not> complete_row row) rest)"
proof (induction rest arbitrary: pre)
  case Nil
  then show ?case by simp
next
  case (Cons row rows)
  show ?case
  proof (cases "complete_row row")
    case True
    have del: "py_del (pre @ row # rows) (int (length pre)) = Inr (pre @ rows)"
      by (simp add: py_del_def py_index_in_range)
    from Cons.IH [of "empty_row # pre"] True show ?thesis
      by (simp add: del empty_row_def replicate_app_Cons_same)
  next
    case False
    from Cons.IH [of "pre @ [row]"] False show ?thesis by simp
  qed
qed

lemma length_complete_indices:
  "length (complete_indices off rows) = length (filter complete_row rows)"
  by (induction rows arbitrary: off) simp_all

lemma clear_lines_wf:
  assumes "wf_board (board s)"
  defines "n \<equiv> int (length (filter complete_row (board s)))"
  shows "clear_lines s =
           Inr (None,
                if n > 0
                then s\<lparr>board := cleared_board (board s),
                       lines_cleared := lines_cleared s + n,
                       score := score s + points_get n * level s,
                       level := (lines_cleared s + n) div 10 + 1\<rparr>
                else s\<lparr>board := cleared_board (board s)\<rparr>)"
proof -
  from assms(1) have "int (length (board s)) = BOARD_HEIGHT"
    by (simp add: wf_board_def)
  then have len: "nat BOARD_HEIGHT = 0 + length (board s)"
    by (metis add_0 nat_int)
  have scan: "find_complete (board s) (map int [0..<nat BOARD_HEIGHT]) [] =
                Inr (map int (complete_indices 0 (board s)))"
    unfolding len using find_complete_scan [of "[]" "board s" "[]"] by simp
  have del: "delete_lines (map int (complete_indices 0 (board s))) (board s) =
               Inr (cleared_board (board s))"
    using delete_lines_compact [of "[]" "board s"] by (simp add: cleared_board_def)
  show ?thesis
    by (simp add: clear_lines_def scan del length_complete_indices n_def Let_def)
qed

lemma wf_cleared_board: "wf_board b \<Longrightarrow> wf_board (cleared_board b)"
proof -
  assume wf: "wf_board b"
  have "length (cleared_board b) = length b"
    by (simp add: cleared_board_def sum_length_filter_compl)
  moreover have "list_all (\<lambda>row. int (length row) = BOARD_WIDTH) (cleared_board b)"
    using wf by (auto simp: cleared_board_def wf_board_def list_all_iff empty_row_def BOARD_WIDTH_def)
  ultimately show ?thesis using wf by (simp add: wf_board_def)
qed

lemma filter_rows_5_7:
  fixes b :: "'a list"
  assumes len: "length b = 20"
    and only: "\<forall>i < 20. P (b ! i) \<longleftrightarrow> i = 5 \<or> i = 7"
  shows "filter P b = [b ! 5, b ! 7]"
    and "filter (\<lambda>r. \<not> P r) b = take 5 b @ [b ! 6] @ drop 8 b"
proof -
  have split: "b = take 5 b @ b ! 5 # b ! 6 # b ! 7 # drop 8 b"
  proof -
    have "b = take 5 b @ b ! 5 # drop 6 b"
      using id_take_nth_drop [of 5 b] len by simp
    moreover have "drop 6 b = b ! 6 # drop 7 b"
      using Cons_nth_drop_Suc [of 6 b] len by simp
    moreover have "drop 7 b = b ! 7 # drop 8 b"
      using Cons_nth_drop_Suc [of 7 b] len by simp
    ultimately show ?thesis by simp
  qed
  have top: "\<not> P r" if "r \<in> set (take 5 b)" for r
  proof -
    from that obtain i where "i < 5" "r = b ! i"
      using len by (auto simp: in_set_conv_nth)
    with only show ?thesis by auto
  qed
  have bottom: "\<not> P r" if "r \<in> set (drop 8 b)" for r
  proof -
    from that obtain i where "i < 12" "r = b ! (8 + i)"
      using len by (auto simp: in_set_conv_nth)
    with only show ?thesis by auto
  qed
  have P5: "P (b ! 5)" and P7: "P (b ! 7)" and P6: "\<not> P (b ! 6)"
    using only by auto
  have f1: "filter P (take 5 b) = []" and f2: "filter P (drop 8 b) = []"
    using top bottom by (auto simp: filter_empty_conv)
  have g1: "filter (\<lambda>r. \<not> P r) (take 5 b) = take 5 b"
    and g2: "filter (\<lambda>r. \<not> P r) (drop 8 b) = drop 8 b"
    using top bottom by (auto simp: filter_id_conv)
  have "filter P b = filter P (take 5 b @ b ! 5 # b ! 6 # b ! 7 # drop 8 b)"
    using split by simp
  then show "filter P b = [b ! 5, b ! 7]"
    by (simp add: f1 f2 P5 P6 P7)
  have "filter (\<lambda>r. \<not> P r) b = filter (\<lambda>r. \<not> P r) (take 5 b @ b ! 5 # b ! 6 # b ! 7 # drop 8 b)"
    using split by simp
  then show "filter (\<lambda>r. \<not> P r) b = take 5 b @ [b ! 6] @ drop 8 b"
    by (simp add: g1 g2 P5 P6 P7)
qed

text \<open>
  Claim C1 (as amended). On a playfield of 20 rows of 10 cells \<open>clear_lines\<close> removes
  exactly the rows whose cells are all occupied, all of them in one call: the new board
  is as many empty rows as were removed, followed by the remaining rows in their order.
  The call itself returns no value (Python's \<open>None\<close>); the number of rows removed is
  added to \<open>lines_cleared\<close>. When rows 5 and 7 are the only complete rows, two rows are
  removed, two empty rows are on top, and rows 0 to 4, 6 and 8 to 19 follow in this order.
\<close>

theorem clear_lines_compacts:
  assumes "wf_board (board s)"
  shows "\<exists>s'. clear_lines s = Inr (None, s') \<and>
           board s' =
             replicate (length (filter complete_row (board s))) empty_row @
             filter (\<lambda>row. \<not> complete_row row) (board s) \<and>
           lines_cleared s' = lines_cleared s + int (length (filter complete_row (board s))) \<and>
           wf_board (board s') \<and>
           ((\<forall>i < 20. complete_row (board s ! i) \<longleftrightarrow> i = 5 \<or> i = 7) \<longrightarrow>
              length (filter complete_row (board s)) = 2 \<and>
              board s' =
                [empty_row, empty_row] @ take 5 (board s) @ [board s ! 6] @ drop 8 (board s))"
proof -
  let ?b = "board s" and ?n = "length (filter complete_row (board s))"
  obtain s' where run: "clear_lines s = Inr (None, s')"
    and b': "board s' = cleared_board ?b"
    and l': "lines_cleared s' = lines_cleared s + int ?n"
    using clear_lines_wf [OF assms] by (cases "0 < ?n") simp_all
  have wf': "wf_board (board s')"
    unfolding b' using assms by (rule wf_cleared_board)
  have particular: "?n = 2 \<and>
      board s' = [empty_row, empty_row] @ take 5 ?b @ [?b ! 6] @ drop 8 ?b"
    if only: "\<forall>i < 20. complete_row (?b ! i) \<longleftrightarrow> i = 5 \<or> i = 7"
  proof -
    from assms have len: "length ?b = 20"
      by (simp add: wf_board_def BOARD_HEIGHT_def)
    from filter_rows_5_7 [of ?b complete_row, OF len only]
    show ?thesis by (simp add: b' cleared_board_def)
  qed
  from run b' l' wf' particular show ?thesis
    unfolding cleared_board_def by blast
qed

theorem clear_lines_compacts_witness:
  "wf_board two_lines_board \<and>
   filter (\<lambda>i. complete_row (two_lines_board ! i)) [0..<20] = [5, 7] \<and>
   map_sum id (\<lambda>r. (fst r, board (snd r), lines_cleared (snd r)))
     (clear_lines (example_game two_lines_board Kind_T 0 3 0)) =
     Inr (None,
          replicate 7 (replicate 10 None) @ [Some Kind_T # replicate 9 None] @
          replicate 11 (replicate 10 None) @ [replicate 9 (Some Kind_L) @ [None]],
          2)"
proof -
  let ?s = "example_game two_lines_board Kind_T 0 3 0"
  have wf: "wf_board two_lines_board"
    by code_simp
  have only: "\<forall>i < 20. complete_row (two_lines_board ! i) \<longleftrightarrow> i = 5 \<or> i = 7"
    by code_simp
  have bs: "board ?s = two_lines_board" "lines_cleared ?s = 0"
    by (simp_all add: example_game_def)
  from clear_lines_compacts [of ?s] wf only
  obtain s' where "clear_lines ?s = Inr (None, s')"
    and "board s' = [empty_row, empty_row] @ take 5 two_lines_board @ [two_lines_board ! 6] @
                      drop 8 two_lines_board"
    and "lines_cleared s' = 2"
    unfolding bs by auto
  moreover have "[empty_row, empty_row] @ take 5 two_lines_board @ [two_lines_board ! 6] @
                      drop 8 two_lines_board =
          replicate 7 (replicate 10 None) @ [Some Kind_T # replicate 9 None] @
          replicate 11 (replicate 10 None) @ [replicate 9 (Some Kind_L) @ [None]]"
    by code_simp
  moreover have "filter (\<lambda>i. complete_row (two_lines_board ! i)) [0..<20] = [5, 7]"
    by code_simp
  ultimately show ?thesis using wf by simp
qed

text \<open>
  Claim C1 as stated says that the call returns the number of rows removed. On a board
  whose rows 5 and 7 are the only complete rows the call returns \<open>None\<close>, not 2.
\<close>

theorem clear_lines_returns_none_counterexample:
  "map_sum id fst (clear_lines (example_game two_lines_board Kind_T 0 3 0)) = Inr None \<and>
   map_sum id fst (clear_lines (example_game two_lines_board Kind_T 0 3 0)) \<noteq> Inr (Some 2)"
  by code_simp

text \<open>
  Claim C6. When \<open>clear_lines\<close> removes \<open>n \<ge> 1\<close> rows, the score grows by 100, 300,
  500 or 800 for \<open>n\<close> = 1, 2, 3, 4 (800 for any larger \<open>n\<close>) times the level before the
  call, \<open>lines_cleared\<close> grows by \<open>n\<close>, and the level becomes
  \<open>lines_cleared div 10 + 1\<close>. Four rows at level 3 add 2400 points.
\<close>

theorem clear_lines_scoring:
  assumes "wf_board (board s)" and "1 \<le> length (filter complete_row (board s))"
  shows "\<exists>s'. clear_lines s = Inr (None, s') \<and>
           score s' = score s + line_reward (length (filter complete_row (board s))) * level s \<and>
           lines_cleared s' = lines_cleared s + int (length (filter complete_row (board s))) \<and>
           level s' = lines_cleared s' div 10 + 1 \<and>
           (length (filter complete_row (board s)) = 4 \<and> level s = 3 \<longrightarrow>
              score s' = score s + 2400)"
proof -
  let ?n = "length (filter complete_row (board s))"
  have pts: "points_get (int ?n) = line_reward ?n"
    using assms(2) by (simp add: points_get_def line_reward_def)
  from assms(2) have pos: "0 < int ?n" by (auto simp: Suc_le_eq)
  show ?thesis
    using clear_lines_wf [OF assms(1)] pos
    by (auto simp: pts line_reward_def)
qed

theorem clear_lines_scoring_witness:
  "wf_board four_lines_board \<and>
   1 \<le> length (filter complete_row four_lines_board) \<and>
   map_sum id (\<lambda>r. (score (snd r), lines_cleared (snd r), level (snd r)))
     (clear_lines ((example_game four_lines_board Kind_T 0 3 0)
                     \<lparr>score := 40, level := 3, lines_cleared := 26\<rparr>)) =
     Inr (2440, 30, 4)"
proof -
  let ?s = "(example_game four_lines_board Kind_T 0 3 0)
              \<lparr>score := 40, level := 3, lines_cleared := 26\<rparr>"
  have wf: "wf_board four_lines_board"
    by code_simp
  have n: "length (filter complete_row four_lines_board) = 4"
    by code_simp
  have f: "board ?s = four_lines_board" "score ?s = 40" "level ?s = 3" "lines_cleared ?s = 26"
    by (simp_all add: example_game_def)
  from clear_lines_scoring [of ?s] wf n
  obtain s' where "clear_lines ?s = Inr (None, s')" "score s' = 2440" "lines_cleared s' = 30"
    "level s' = 4"
    unfolding f by auto
  then show ?thesis using wf n by simp
qed

subsection \<open>The bag and spawning\<close>

lemma pop_nonempty:
  "bag s \<noteq> [] \<Longrightarrow>
   get_next_piece_type s = Inr (last (bag s), s\<lparr>bag := butlast (bag s)\<rparr>)"
  by (simp add: get_next_piece_type_def)

lemma pop_refill:
  assumes "bag s = []" and "mset (rng s (rng_calls s) TETROMINOES_keys) = mset TETROMINOES_keys"
  shows "get_next_piece_type s =
           Inr (last (rng s (rng_calls s) TETROMINOES_keys),
                s\<lparr>bag := butlast (rng s (rng_calls s) TETROMINOES_keys),
                   rng_calls := Suc (rng_calls s)\<rparr>)"
proof -
  have "rng s (rng_calls s) TETROMINOES_keys \<noteq> []"
    using assms(2) by (auto simp: TETROMINOES_keys_def)
  then show ?thesis
    using assms(1) by (simp add: get_next_piece_type_def)
qed

lemma draw_n_pops:
  "n \<le> length (bag s) \<Longrightarrow>
   draw_n n s = Inr (take n (rev (bag s)), s\<lparr>bag := take (length (bag s) - n) (bag s)\<rparr>)"
proof (induction n arbitrary: s)
  case 0
  then show ?case by simp
next
  case (Suc n)
  then have ne: "bag s \<noteq> []" by auto
  let ?s1 = "s\<lparr>bag := butlast (bag s)\<rparr>"
  have "n \<le> length (bag ?s1)" using Suc.prems by simp
  from Suc.IH [OF this]
  have rest: "draw_n n ?s1 =
      Inr (take n (rev (butlast (bag s))),
           s\<lparr>bag := take (length (bag s) - Suc n) (butlast (bag s))\<rparr>)"
    by simp
  have r: "rev (bag s) = last (bag s) # rev (butlast (bag s))"
    using ne by (metis append_butlast_last_id rev.simps(2) rev_append rev_singleton_conv append_Cons append_Nil)
  have t: "take (length (bag s) - Suc n) (butlast (bag s)) = take (length (bag s) - Suc n) (bag s)"
    by (simp add: butlast_conv_take min_def)
  show ?case
    by (simp add: pop_nonempty [OF ne] rest r t)
qed

lemma draw_seven:
  assumes "bag s = []" and "mset (rng s (rng_calls s) TETROMINOES_keys) = mset TETROMINOES_keys"
  shows "draw_n 7 s =
           Inr (rev (rng s (rng_calls s) TETROMINOES_keys),
                s\<lparr>bag := [], rng_calls := Suc (rng_calls s)\<rparr>)"
proof -
  let ?p = "rng s (rng_calls s) TETROMINOES_keys"
  let ?s1 = "s\<lparr>bag := butlast ?p, rng_calls := Suc (rng_calls s)\<rparr>"
  from assms(2) have "size (mset ?p) = size (mset TETROMINOES_keys)" by simp
  then have len: "length ?p = 7"
    by (simp add: TETROMINOES_keys_def)
  then have ne: "?p \<noteq> []" by auto
  have "draw_n 6 ?s1 = Inr (take 6 (rev (bag ?s1)), ?s1\<lparr>bag := take (length (bag ?s1) - 6) (bag ?s1)\<rparr>)"
    by (rule draw_n_pops) (simp add: len)
  then have rest: "draw_n 6 ?s1 = Inr (rev (butlast ?p), s\<lparr>bag := [], rng_calls := Suc (rng_calls s)\<rparr>)"
    by (simp add: len)
  have r: "rev ?p = last ?p # rev (butlast ?p)"
    using ne by (metis append_butlast_last_id rev.simps(2) rev_append rev_singleton_conv append_Cons append_Nil)
  have step: "draw_n 7 s =
      (case get_next_piece_type s of
         Inl e \<Rightarrow> Inl e
       | Inr (k, s1) \<Rightarrow>
           (case draw_n 6 s1 of Inl e \<Rightarrow> Inl e | Inr (ks, s2) \<Rightarrow> Inr (k # ks, s2)))"
    using draw_n.simps(2) [of 6 s] by simp
  show ?thesis
    unfolding step by (simp add: pop_refill [OF assms] rest r)
qed

lemma draw_n_add:
  "draw_n (a + b) s =
     (case draw_n a s of
        Inl e \<Rightarrow> Inl e
      | Inr (ks, s1) \<Rightarrow>
          (case draw_n b s1 of Inl e \<Rightarrow> Inl e | Inr (ks', s2) \<Rightarrow> Inr (ks @ ks', s2)))"
  by (induction a arbitrary: s) (auto split: sum.splits)

lemma draw_windows:
  assumes "rng_permutes s" and "bag s = []"
  shows "\<exists>ks s'. draw_n (7 * m) s = Inr (ks, s') \<and> bag s' = [] \<and> length ks = 7 * m \<and>
           (\<forall>j < m. mset (take 7 (drop (7 * j) ks)) = mset TETROMINOES_keys)"
  using assms
proof (induction m arbitrary: s)
  case 0
  then show ?case by simp
next
  case (Suc m)
  let ?p = "rng s (rng_calls s) TETROMINOES_keys"
  let ?s1 = "s\<lparr>bag := [], rng_calls := Suc (rng_calls s)\<rparr>"
  from Suc.prems have perm: "mset ?p = mset TETROMINOES_keys"
    by (simp add: rng_permutes_def)
  then have "size (mset ?p) = size (mset TETROMINOES_keys)" by simp
  then have len: "length ?p = 7" by (simp add: TETROMINOES_keys_def)
  have first: "draw_n 7 s = Inr (rev ?p, ?s1)"
    using Suc.prems(2) perm by (rule draw_seven)
  have "rng_permutes ?s1" "bag ?s1 = []"
    using Suc.prems by (simp_all add: rng_permutes_def)
  from Suc.IH [OF this] obtain ks s' where
    rest: "draw_n (7 * m) ?s1 = Inr (ks, s')" and b: "bag s' = []" and l: "length ks = 7 * m"
    and w: "\<forall>j < m. mset (take 7 (drop (7 * j) ks)) = mset TETROMINOES_keys"
    by blast
  have run: "draw_n (7 * Suc m) s = Inr (rev ?p @ ks, s')"
    using draw_n_add [of 7 "7 * m" s] by (simp add: first rest)
  have win: "mset (take 7 (drop (7 * j) (rev ?p @ ks))) = mset TETROMINOES_keys"
    if "j < Suc m" for j
  proof (cases j)
    case 0
    then show ?thesis by (simp add: len perm)
  next
    case (Suc i)
    with that have "i < m" by simp
    with w have "mset (take 7 (drop (7 * i) ks)) = mset TETROMINOES_keys" by blast
    moreover have "drop (7 * j) (rev ?p @ ks) = drop (7 * i) ks"
      by (simp add: Suc len)
    ultimately show ?thesis by simp
  qed
  show ?case
    using run b l len win by auto
qed

lemma count_keys: "count (mset TETROMINOES_keys) k = 1"
  by (cases k) (simp_all add: TETROMINOES_keys_def)

text \<open>
  Claim C7. Whatever permutations the shuffle produces: a call of
  \<open>get_next_piece_type\<close> on an empty bag refills it with a permutation of the seven
  kinds and pops one of them, and in any run of \<open>7 * m\<close> calls that starts on an empty
  bag each window of seven consecutive draws holds every kind exactly once, the bag being
  empty again after it.
\<close>

theorem bag_gives_each_kind_once:
  assumes "rng_permutes s" and "bag s = []"
  shows "(\<exists>k s1. get_next_piece_type s = Inr (k, s1) \<and>
            bag s1 @ [k] = rng s (rng_calls s) TETROMINOES_keys \<and>
            mset (bag s1 @ [k]) = mset TETROMINOES_keys) \<and>
         (\<exists>ks s'. draw_n (7 * m) s = Inr (ks, s') \<and> bag s' = [] \<and>
            (\<forall>j < m. mset (take 7 (drop (7 * j) ks)) = mset TETROMINOES_keys \<and>
                     (\<forall>k. count_list (take 7 (drop (7 * j) ks)) k = 1)))"
proof -
  let ?p = "rng s (rng_calls s) TETROMINOES_keys"
  from assms(1) have perm: "mset ?p = mset TETROMINOES_keys"
    by (simp add: rng_permutes_def)
  then have ne: "?p \<noteq> []"
    by (auto simp: TETROMINOES_keys_def)
  have refill: "\<exists>k s1. get_next_piece_type s = Inr (k, s1) \<and> bag s1 @ [k] = ?p \<and>
            mset (bag s1 @ [k]) = mset TETROMINOES_keys"
  proof -
    let ?s1 = "s\<lparr>bag := butlast ?p, rng_calls := Suc (rng_calls s)\<rparr>"
    have g: "get_next_piece_type s = Inr (last ?p, ?s1)"
      by (rule pop_refill [OF assms(2) perm])
    have a: "bag ?s1 @ [last ?p] = ?p"
      using ne by simp
    have b: "mset (bag ?s1 @ [last ?p]) = mset TETROMINOES_keys"
      unfolding a by (rule perm)
    from g a b show ?thesis by blast
  qed
  from draw_windows [OF assms, of m] obtain ks s' where
    run: "draw_n (7 * m) s = Inr (ks, s')" and b: "bag s' = []"
    and w: "\<forall>j < m. mset (take 7 (drop (7 * j) ks)) = mset TETROMINOES_keys"
    by blast
  have once: "count_list (take 7 (drop (7 * j) ks)) k = 1" if "j < m" for j k
  proof -
    from w that have "mset (take 7 (drop (7 * j) ks)) = mset TETROMINOES_keys" by blast
    then have "count (mset (take 7 (drop (7 * j) ks))) k = 1"
      by (simp add: count_keys)
    then show ?thesis by (simp only: count_mset)
  qed
  from refill run b w once show ?thesis by blast
qed

theorem bag_gives_each_kind_once_witness:
  "rng_permutes empty_bag_state \<and> bag empty_bag_state = [] \<and>
   map_sum id fst (get_next_piece_type empty_bag_state) = Inr Kind_I \<and>
   map_sum id fst (draw_n 14 empty_bag_state) =
     Inr [Kind_I, Kind_O, Kind_T, Kind_S, Kind_Z, Kind_J, Kind_L,
          Kind_I, Kind_O, Kind_T, Kind_S, Kind_Z, Kind_J, Kind_L] \<and>
   (\<exists>ks s'. draw_n (7 * 2) empty_bag_state = Inr (ks, s') \<and> bag s' = [] \<and>
      (\<forall>j < 2. mset (take 7 (drop (7 * j) ks)) = mset TETROMINOES_keys \<and>
               (\<forall>k. count_list (take 7 (drop (7 * j) ks)) k = 1)))"
proof -
  have p: "rng_permutes empty_bag_state"
    by (simp add: rng_permutes_def empty_bag_state_def example_game_def)
  have e: "bag empty_bag_state = []"
    by (simp add: empty_bag_state_def)
  have first: "map_sum id fst (get_next_piece_type empty_bag_state) = Inr Kind_I"
    by code_simp
  have all: "map_sum id fst (draw_n 14 empty_bag_state) =
     Inr [Kind_I, Kind_O, Kind_T, Kind_S, Kind_Z, Kind_J, Kind_L,
          Kind_I, Kind_O, Kind_T, Kind_S, Kind_Z, Kind_J, Kind_L]"
    by code_simp
  from bag_gives_each_kind_once [OF p e, of 2] p e first all show ?thesis by blast
qed

lemma get_next_piece_type_frame:
  assumes "rng_permutes s"
  shows "\<exists>k bg c. get_next_piece_type s = Inr (k, s\<lparr>bag := bg, rng_calls := c\<rparr>)"
proof (cases "bag s = []")
  case True
  from assms have "mset (rng s (rng_calls s) TETROMINOES_keys) = mset TETROMINOES_keys"
    by (simp add: rng_permutes_def)
  from pop_refill [OF True this] show ?thesis by blast
next
  case False
  have "s\<lparr>bag := butlast (bag s)\<rparr> = s\<lparr>bag := butlast (bag s), rng_calls := rng_calls s\<rparr>"
    by simp
  with pop_nonempty [OF False] show ?thesis by metis
qed

lemma spawning_kind_exists: "rng_permutes s \<Longrightarrow> \<exists>k. spawning_kind s k"
  using get_next_piece_type_frame [of s]
  by (cases "next_type s") (auto simp: spawning_kind_def)

lemma spawn_piece_wf:
  assumes wf: "wf_board (board s)" and rp: "rng_permutes s" and k: "spawning_kind s k"
  shows "\<exists>bg c n. spawn_piece s =
           Inr (s\<lparr>bag := bg, rng_calls := c, current_type := k, next_type := Some n,
                  current_rotation := 0, current_piece := TETROMINOES k ! 0,
                  current_x := BOARD_WIDTH div 2 - 2, current_y := 0,
                  game_over := (game_over s \<or>
                     is_valid_position (board s) (BOARD_WIDTH div 2 - 2) 0
                       (TETROMINOES k ! 0) \<noteq> Inr True)\<rparr>)"
proof -
  have "\<exists>bg1 c1.
    (case next_type s of Some k \<Rightarrow> Inr (k, s) | None \<Rightarrow> get_next_piece_type s) =
       Inr (k, s\<lparr>bag := bg1, rng_calls := c1\<rparr>)"
  proof (cases "next_type s")
    case None
    with k have "map_sum id fst (get_next_piece_type s) = Inr k"
      by (simp add: spawning_kind_def)
    with get_next_piece_type_frame [OF rp] obtain bg c where
      "get_next_piece_type s = Inr (k, s\<lparr>bag := bg, rng_calls := c\<rparr>)" by auto
    with None show ?thesis by auto
  next
    case (Some n)
    with k have kn: "k = n" by (simp add: spawning_kind_def)
    have "\<exists>bg1 c1. Inr (n, s) = Inr (k, s\<lparr>bag := bg1, rng_calls := c1\<rparr>)"
    proof (intro exI)
      show "Inr (n, s) = Inr (k, s\<lparr>bag := bag s, rng_calls := rng_calls s\<rparr>)"
        using kn by simp
    qed
    then show ?thesis by (simp add: Some)
  qed
  then obtain bg1 c1 where first:
    "(case next_type s of Some k \<Rightarrow> Inr (k, s) | None \<Rightarrow> get_next_piece_type s) =
       Inr (k, s\<lparr>bag := bg1, rng_calls := c1\<rparr>)"
    by blast
  let ?s1 = "s\<lparr>bag := bg1, rng_calls := c1, current_type := k\<rparr>"
  have "rng_permutes ?s1" using rp by (simp add: rng_permutes_def)
  from get_next_piece_type_frame [OF this] obtain n bg c where second:
    "get_next_piece_type ?s1 = Inr (n, ?s1\<lparr>bag := bg, rng_calls := c\<rparr>)" by blast
  have get: "py_get (TETROMINOES k) 0 = Inr (TETROMINOES k ! 0)"
    using py_get_TETROMINOES [of 0 k] by simp
  have v: "is_valid_position (board s) x y p = Inr (list_all (cell_ok (board s) x y) p)" for x y p
    using wf by (rule is_valid_position_wf)
  have "spawn_piece s =
           Inr (s\<lparr>bag := bg, rng_calls := c, current_type := k, next_type := Some n,
                  current_rotation := 0, current_piece := TETROMINOES k ! 0,
                  current_x := BOARD_WIDTH div 2 - 2, current_y := 0,
                  game_over := (game_over s \<or>
                     is_valid_position (board s) (BOARD_WIDTH div 2 - 2) 0
                       (TETROMINOES k ! 0) \<noteq> Inr True)\<rparr>)"
    unfolding spawn_piece_def first
    by (simp add: second get v Let_def)
  then show ?thesis by blast
qed

text \<open>
  Claim C2 (as amended). When the layout of the kind to spawn, in rotation 0 at
  \<open>x = BOARD_WIDTH div 2 - 2\<close>, \<open>y = 0\<close>, is not a valid position, \<open>spawn_piece\<close>
  sets \<open>game_over\<close> and leaves the board as it was. The attributes of the active piece
  are set to the new piece all the same: its kind, rotation 0, its layout and the spawn
  offset.
\<close>

theorem spawn_blocked_game_over:
  assumes "wf_board (board s)" and "rng_permutes s" and "spawning_kind s k"
    and "is_valid_position (board s) (BOARD_WIDTH div 2 - 2) 0 (TETROMINOES k ! 0) = Inr False"
  shows "\<exists>s'. spawn_piece s = Inr s' \<and> game_over s' \<and> board s' = board s \<and>
           current_type s' = k \<and> current_rotation s' = 0 \<and>
           current_piece s' = TETROMINOES k ! 0 \<and>
           current_x s' = BOARD_WIDTH div 2 - 2 \<and> current_y s' = 0"
proof -
  from spawn_piece_wf [OF assms(1-3)] obtain bg c n where
    "spawn_piece s =
           Inr (s\<lparr>bag := bg, rng_calls := c, current_type := k, next_type := Some n,
                  current_rotation := 0, current_piece := TETROMINOES k ! 0,
                  current_x := BOARD_WIDTH div 2 - 2, current_y := 0,
                  game_over := (game_over s \<or>
                     is_valid_position (board s) (BOARD_WIDTH div 2 - 2) 0
                       (TETROMINOES k ! 0) \<noteq> Inr True)\<rparr>)"
    by blast
  then show ?thesis
    using assms(4) by simp
qed

theorem spawn_blocked_game_over_witness:
  "wf_board (board blocked_state) \<and> rng_permutes blocked_state \<and>
   spawning_kind blocked_state Kind_T \<and>
   is_valid_position (board blocked_state) (BOARD_WIDTH div 2 - 2) 0 (TETROMINOES Kind_T ! 0) =
     Inr False \<and>
   (\<exists>s'. spawn_piece blocked_state = Inr s' \<and> game_over s' \<and>
          board s' = board blocked_state \<and> current_type s' = Kind_T \<and>
          current_rotation s' = 0 \<and> current_piece s' = TETROMINOES Kind_T ! 0 \<and>
          current_x s' = BOARD_WIDTH div 2 - 2 \<and> current_y s' = 0)"
proof -
  have wf: "wf_board (board blocked_state)"
    by code_simp
  have rp: "rng_permutes blocked_state"
    by (simp add: rng_permutes_def blocked_state_def example_game_def)
  have sk: "spawning_kind blocked_state Kind_T"
    by (simp add: spawning_kind_def blocked_state_def example_game_def)
  have inv: "is_valid_position (board blocked_state) (BOARD_WIDTH div 2 - 2) 0
               (TETROMINOES Kind_T ! 0) = Inr False"
    by code_simp
  from spawn_blocked_game_over [OF wf rp sk inv] wf rp sk inv show ?thesis by blast
qed

text \<open>
  Claim C2 as stated says that no new active piece is created. On a board whose column 4
  is occupied, with the I piece just locked at \<open>(2, 0)\<close> in rotation 1, the spawn of a T
  piece is invalid, the game is over, and the active piece is the T piece at \<open>(3, 0)\<close> in
  rotation 0.
\<close>

theorem spawn_sets_active_piece_counterexample:
  "is_valid_position (board blocked_state) (BOARD_WIDTH div 2 - 2) 0 (TETROMINOES Kind_T ! 0) =
     Inr False \<and>
   next_type blocked_state = Some Kind_T \<and>
   current_type blocked_state = Kind_I \<and> current_rotation blocked_state = 1 \<and>
   current_x blocked_state = 2 \<and> current_y blocked_state = 0 \<and>
   current_piece blocked_state = [(2, 0), (2, 1), (2, 2), (2, 3)] \<and>
   map_sum id game_over (spawn_piece blocked_state) = Inr True \<and>
   map_sum id current_type (spawn_piece blocked_state) = Inr Kind_T \<and>
   map_sum id current_rotation (spawn_piece blocked_state) = Inr 0 \<and>
   map_sum id current_x (spawn_piece blocked_state) = Inr 3 \<and>
   map_sum id current_y (spawn_piece blocked_state) = Inr 0 \<and>
   map_sum id current_piece (spawn_piece blocked_state) = Inr [(1, 0), (0, 1), (1, 1), (2, 1)]"
  by code_simp

subsection \<open>Dropping: the two loops\<close>

lemma fits_frame [simp]:
  "fits (s\<lparr>current_y := v\<rparr>) y = fits s y"
  "fits (s\<lparr>score := w\<rparr>) y = fits s y"
  by (simp_all add: fits_def)

lemma landing_frame [simp]: "landing (s\<lparr>current_y := v\<rparr>) y0 g = landing s y0 g"
  by (simp add: landing_def)

lemma fits_wf:
  "wf_board (board s) \<Longrightarrow>
   is_valid_position (board s) (current_x s) y (current_piece s) = Inr (fits s y)"
  by (simp add: fits_def is_valid_position_wf)

lemma fits_below_bottom:
  assumes "wf_board (board s)" and "c \<in> set (current_piece s)" and "fits s y"
  shows "y + snd c < BOARD_HEIGHT"
  using assms by (auto simp: fits_def is_valid_position_wf list_all_iff cell_ok_def)

lemma landing_unique:
  assumes "landing s y0 g" and "landing s y0 g'"
  shows "g = g'"
proof (rule ccontr)
  assume "g \<noteq> g'"
  then consider "g < g'" | "g' < g" by linarith
  then show False
  proof cases
    case 1
    with assms have "fits s (g + 1)" "\<not> fits s (g + 1)"
      by (auto simp: landing_def)
    then show False by simp
  next
    case 2
    with assms have "fits s (g' + 1)" "\<not> fits s (g' + 1)"
      by (auto simp: landing_def)
    then show False by simp
  qed
qed

lemma landing_step:
  assumes "fits s (y0 + 1)" and "landing s (y0 + 1) g"
  shows "landing s y0 g"
  unfolding landing_def
proof (intro conjI allI impI)
  from assms(2) show "y0 \<le> g" "\<not> fits s (g + 1)" by (auto simp: landing_def)
  fix y assume "y0 < y \<and> y \<le> g"
  then have "y = y0 + 1 \<or> (y0 + 1 < y \<and> y \<le> g)" by linarith
  with assms show "fits s y" by (auto simp: landing_def)
qed

lemma ghost_loop_lands:
  assumes wf: "wf_board (board s)" and ne: "current_piece s \<noteq> []"
  shows "\<exists>g. landing s y0 g \<and> ghost_loop s y0 = Some (Inr (g, s))"
proof (induction "nat (BOARD_HEIGHT - (y0 + snd (hd (current_piece s))))"
    arbitrary: y0 rule: less_induct)
  case less
  show ?case
  proof (cases "fits s (y0 + 1)")
    case True
    from ne have "hd (current_piece s) \<in> set (current_piece s)" by simp
    from fits_below_bottom [OF wf this True]
    have "nat (BOARD_HEIGHT - (y0 + 1 + snd (hd (current_piece s))))
            < nat (BOARD_HEIGHT - (y0 + snd (hd (current_piece s))))"
      by simp
    from less [OF this] obtain g where
      l: "landing s (y0 + 1) g" and run: "ghost_loop s (y0 + 1) = Some (Inr (g, s))"
      by blast
    have "ghost_loop s y0 = ghost_loop s (y0 + 1)"
      by (subst ghost_loop.simps) (simp add: fits_wf [OF wf] True)
    with run landing_step [OF True l] show ?thesis by auto
  next
    case False
    have "ghost_loop s y0 = Some (Inr (y0, s))"
      by (subst ghost_loop.simps) (simp add: fits_wf [OF wf] False)
    moreover from False have "landing s y0 y0"
      by (auto simp: landing_def)
    ultimately show ?thesis by blast
  qed
qed

lemma move_down:
  "wf_board (board s) \<Longrightarrow>
   move 0 1 s =
     Inr (if fits s (current_y s + 1) then (True, s\<lparr>current_y := current_y s + 1\<rparr>)
          else (False, s))"
  by (simp add: move_def fits_wf)

lemma hard_drop_loop_lands:
  assumes wf: "wf_board (board s)" and ne: "current_piece s \<noteq> []"
  shows "\<exists>g. landing s (current_y s) g \<and>
              hard_drop_loop s d = Some (Inr (s\<lparr>current_y := g\<rparr>, d + (g - current_y s)))"
  using assms
proof (induction "nat (BOARD_HEIGHT - (current_y s + snd (hd (current_piece s))))"
    arbitrary: s d rule: less_induct)
  case less
  note wf = less.prems(1) and ne = less.prems(2)
  show ?case
  proof (cases "fits s (current_y s + 1)")
    case True
    let ?s1 = "s\<lparr>current_y := current_y s + 1\<rparr>"
    from ne have "hd (current_piece s) \<in> set (current_piece s)" by simp
    from fits_below_bottom [OF wf this True]
    have "nat (BOARD_HEIGHT - (current_y ?s1 + snd (hd (current_piece ?s1))))
            < nat (BOARD_HEIGHT - (current_y s + snd (hd (current_piece s))))"
      by simp
    from less.hyps [OF this, of "d + 1"] wf ne obtain g where
      l: "landing s (current_y s + 1) g"
      and run: "hard_drop_loop ?s1 (d + 1) =
                  Some (Inr (s\<lparr>current_y := g\<rparr>, d + 1 + (g - (current_y s + 1))))"
      by auto
    have "hard_drop_loop s d = hard_drop_loop ?s1 (d + 1)"
      by (subst hard_drop_loop.simps) (simp add: move_down [OF wf] True)
    with run landing_step [OF True l] show ?thesis by auto
  next
    case False
    have "hard_drop_loop s d = Some (Inr (s, d))"
      by (subst hard_drop_loop.simps) (simp add: move_down [OF wf] False)
    moreover from False have "landing s (current_y s) (current_y s)"
      by (auto simp: landing_def)
    ultimately show ?thesis by force
  qed
qed

lemma py_set_in_range:
  "0 \<le> i \<Longrightarrow> i < int (length xs) \<Longrightarrow> py_set xs i v = Inr (xs[nat i := v])"
  by (simp add: py_set_def py_index_in_range)

lemma wf_board_update:
  assumes "wf_board b" and "int (length r) = BOARD_WIDTH"
  shows "wf_board (b[i := r])"
proof -
  have "set (b[i := r]) \<subseteq> insert r (set b)"
    by (rule set_update_subset_insert)
  with assms show ?thesis
    by (auto simp: wf_board_def list_all_iff)
qed

lemma lock_cells_wf:
  "wf_board b \<Longrightarrow> \<exists>b'. lock_cells p cx cy k b = Inr b' \<and> wf_board b'"
proof (induction p arbitrary: b)
  case Nil
  then show ?case by simp
next
  case (Cons c p)
  obtain px py where c: "c = (px, py)" by (cases c)
  let ?x = "cx + px" and ?y = "cy + py"
  show ?case
  proof (cases "0 \<le> ?y \<and> ?y < BOARD_HEIGHT \<and> 0 \<le> ?x \<and> ?x < BOARD_WIDTH")
    case True
    let ?row = "(b ! nat ?y)[nat ?x := Some k]"
    from True Cons.prems have row: "int (length (b ! nat ?y)) = BOARD_WIDTH"
      by (simp add: wf_board_row)
    from True Cons.prems have get: "py_get b ?y = Inr (b ! nat ?y)"
      by (simp add: py_get_in_range wf_board_def)
    from True row have set1: "py_set (b ! nat ?y) ?x (Some k) = Inr ?row"
      by (simp add: py_set_in_range)
    from True Cons.prems have set2: "py_set b ?y ?row = Inr (b[nat ?y := ?row])"
      by (simp add: py_set_in_range wf_board_def)
    have "wf_board (b[nat ?y := ?row])"
      using Cons.prems row by (intro wf_board_update) simp_all
    from Cons.IH [OF this] show ?thesis
      using True by (simp add: c get set1 set2 Let_def)
  next
    case False
    with Cons.IH [OF Cons.prems] show ?thesis
      by (auto simp: c)
  qed
qed

lemma clear_lines_total:
  assumes "wf_board (board s)"
  shows "\<exists>s1. clear_lines s = Inr (None, s1) \<and> wf_board (board s1) \<and> rng s1 = rng s \<and>
              next_type s1 = next_type s \<and> bag s1 = bag s"
  using clear_lines_wf [OF assms] wf_cleared_board [OF assms]
  by (cases "0 < int (length (filter complete_row (board s)))") simp_all

lemma lock_piece_total:
  assumes wf: "wf_board (board s)" and rp: "rng_permutes s"
  shows "\<exists>s'. lock_piece s = Inr s'"
proof -
  from lock_cells_wf [OF wf] obtain b where
    cells: "lock_cells (current_piece s) (current_x s) (current_y s) (current_type s) (board s)
              = Inr b"
    and wfb: "wf_board b"
    by blast
  from wfb have "wf_board (board (s\<lparr>board := b\<rparr>))" by simp
  from clear_lines_total [OF this] obtain s1 where
    clear: "clear_lines (s\<lparr>board := b\<rparr>) = Inr (None, s1)"
    and wf1: "wf_board (board s1)" and r1: "rng s1 = rng s"
    by auto
  from rp r1 have rp1: "rng_permutes s1" by (simp add: rng_permutes_def)
  from spawning_kind_exists [OF rp1] obtain k where "spawning_kind s1 k" by blast
  from spawn_piece_wf [OF wf1 rp1 this] obtain s' where "spawn_piece s1 = Inr s'" by blast
  then show ?thesis
    by (simp add: lock_piece_def cells clear)
qed

text \<open>
  Claim C5. \<open>hard_drop\<close> repeats \<open>move(0, 1)\<close> until it fails; with \<open>d\<close> successful
  steps it adds \<open>2 * d\<close> to the score and then locks the piece, and the call returns.
  For an O piece at its spawn position on an empty board \<open>d\<close> is 18: the score grows by
  36, the piece is locked in rows 18 and 19, and no line is cleared.
\<close>

theorem hard_drop_awards_two_per_step:
  assumes "wf_board (board s)" and "current_piece s \<noteq> []" and "rng_permutes s"
  shows "\<exists>d s'. 0 \<le> d \<and>
           (\<forall>i. 0 \<le> i \<and> i < d \<longrightarrow>
                move 0 1 (s\<lparr>current_y := current_y s + i\<rparr>) =
                  Inr (True, s\<lparr>current_y := current_y s + i + 1\<rparr>)) \<and>
           move 0 1 (s\<lparr>current_y := current_y s + d\<rparr>) =
             Inr (False, s\<lparr>current_y := current_y s + d\<rparr>) \<and>
           hard_drop_loop s 0 = Some (Inr (s\<lparr>current_y := current_y s + d\<rparr>, d)) \<and>
           hard_drop s =
             Some (lock_piece (s\<lparr>current_y := current_y s + d, score := score s + 2 * d\<rparr>)) \<and>
           hard_drop s = Some (Inr s') \<and>
           (board s = empty_board \<and> current_type s = Kind_O \<and>
            current_piece s = TETROMINOES Kind_O ! 0 \<and>
            current_x s = BOARD_WIDTH div 2 - 2 \<and> current_y s = 0 \<longrightarrow>
              d = 18 \<and> score s' = score s + 36 \<and> board s' = landed_O_board \<and>
              lines_cleared s' = lines_cleared s)"
proof -
  note wf = assms(1)
  from hard_drop_loop_lands [OF assms(1,2), of 0] obtain g where
    l: "landing s (current_y s) g"
    and loop: "hard_drop_loop s 0 = Some (Inr (s\<lparr>current_y := g\<rparr>, g - current_y s))"
    by auto
  define d where "d = g - current_y s"
  then have g: "g = current_y s + d" by simp
  from l have d0: "0 \<le> d" by (simp add: landing_def d_def)
  let ?s1 = "s\<lparr>current_y := current_y s + d, score := score s + 2 * d\<rparr>"
  have steps: "move 0 1 (s\<lparr>current_y := current_y s + i\<rparr>) =
                  Inr (True, s\<lparr>current_y := current_y s + i + 1\<rparr>)"
    if "0 \<le> i \<and> i < d" for i
  proof -
    from that l have "fits s (current_y s + i + 1)"
      by (simp add: landing_def g)
    then show ?thesis
      using wf by (simp add: move_down)
  qed
  have last: "move 0 1 (s\<lparr>current_y := current_y s + d\<rparr>) =
             Inr (False, s\<lparr>current_y := current_y s + d\<rparr>)"
    using l wf by (simp add: move_down landing_def g)
  have loop': "hard_drop_loop s 0 = Some (Inr (s\<lparr>current_y := current_y s + d\<rparr>, d))"
    using loop by (simp add: g)
  have drop: "hard_drop s = Some (lock_piece ?s1)"
    by (simp add: hard_drop_def loop' mult.commute)
  have "wf_board (board ?s1)" "rng_permutes ?s1"
    using assms by (simp_all add: rng_permutes_def)
  from lock_piece_total [OF this] obtain s' where lock: "lock_piece ?s1 = Inr s'"
    by blast
  have particular: "d = 18 \<and> score s' = score s + 36 \<and> board s' = landed_O_board \<and>
              lines_cleared s' = lines_cleared s"
    if h: "board s = empty_board \<and> current_type s = Kind_O \<and>
            current_piece s = TETROMINOES Kind_O ! 0 \<and>
            current_x s = BOARD_WIDTH div 2 - 2 \<and> current_y s = 0"
  proof -
    have f: "fits s y \<longleftrightarrow> y < 19" if "0 < y" for y
    proof -
      have "cell_at empty_board x y' = None" if "0 \<le> y'" "y' < 20" "0 \<le> x" "x < 10" for x y'
        using that by (simp add: cell_at_def empty_board_def)
      moreover have "fits s y \<longleftrightarrow> list_all (cell_ok (board s) (current_x s) y) (current_piece s)"
        using wf by (simp add: fits_def is_valid_position_wf)
      ultimately show ?thesis
        using h \<open>0 < y\<close> by (auto simp: cell_ok_def BOARD_WIDTH_def BOARD_HEIGHT_def)
    qed
    have "landing s (current_y s) 18"
      using h by (auto simp: landing_def f)
    with l have "g = 18" by (rule landing_unique)
    with h have d: "d = 18" by (simp add: d_def)
    have cells: "lock_cells (TETROMINOES Kind_O ! 0) 3 18 Kind_O empty_board = Inr landed_O_board"
      by code_simp
    have none: "filter complete_row landed_O_board = []"
      and same: "cleared_board landed_O_board = landed_O_board"
      and wfl: "wf_board landed_O_board"
      by code_simp+
    let ?s2 = "?s1\<lparr>board := landed_O_board\<rparr>"
    have clear: "clear_lines ?s2 = Inr (None, ?s2)"
      using clear_lines_wf [of ?s2] wfl by (simp add: none same)
    have rp2: "rng_permutes ?s2" using assms(3) by (simp add: rng_permutes_def)
    from spawning_kind_exists [OF rp2] obtain k where k: "spawning_kind ?s2 k" by blast
    have "wf_board (board ?s2)" using wfl by simp
    from spawn_piece_wf [OF this rp2 k] obtain s'' where
      sp: "spawn_piece ?s2 = Inr s''" and "board s'' = landed_O_board"
      "score s'' = score s + 2 * d" "lines_cleared s'' = lines_cleared s"
      by auto
    moreover have "lock_piece ?s1 = spawn_piece ?s2"
    proof -
      have "lock_cells (current_piece ?s1) (current_x ?s1) (current_y ?s1) (current_type ?s1)
              (board ?s1) =
            lock_cells (TETROMINOES Kind_O ! 0) 3 18 Kind_O empty_board"
        using h d by (simp add: BOARD_WIDTH_def del: lock_cells.simps)
      with cells have lc:
        "lock_cells (current_piece ?s1) (current_x ?s1) (current_y ?s1) (current_type ?s1)
              (board ?s1) = Inr landed_O_board"
        by (simp only:)
      show ?thesis
        unfolding lock_piece_def lc by (simp add: clear)
    qed
    ultimately show ?thesis
      using lock d by simp
  qed
  from d0 steps last loop' drop lock particular show ?thesis
    by (intro exI [of _ d] exI [of _ s']) (simp only: drop lock, blast)
qed

theorem hard_drop_awards_two_per_step_witness:
  "wf_board (board (example_game empty_board Kind_O 0 3 0)) \<and>
   current_piece (example_game empty_board Kind_O 0 3 0) \<noteq> [] \<and>
   rng_permutes (example_game empty_board Kind_O 0 3 0) \<and>
   map_option (map_sum id (\<lambda>s'. (score s', board s', lines_cleared s')))
     (hard_drop (example_game empty_board Kind_O 0 3 0)) =
     Some (Inr (36, landed_O_board, 0))"
proof -
  let ?s = "example_game empty_board Kind_O 0 3 0"
  have wf: "wf_board (board ?s)"
    by (simp add: example_game_def wf_empty_board)
  have ne: "current_piece ?s \<noteq> []"
    by (simp add: example_game_def)
  have rp: "rng_permutes ?s"
    by (simp add: rng_permutes_def example_game_def)
  have at_spawn: "board ?s = empty_board \<and> current_type ?s = Kind_O \<and>
            current_piece ?s = TETROMINOES Kind_O ! 0 \<and>
            current_x ?s = BOARD_WIDTH div 2 - 2 \<and> current_y ?s = 0"
    by (simp add: example_game_def BOARD_WIDTH_def)
  from hard_drop_awards_two_per_step [OF wf ne rp] at_spawn
  obtain s' where "hard_drop ?s = Some (Inr s')" "score s' = score ?s + 36"
    "board s' = landed_O_board" "lines_cleared s' = lines_cleared ?s"
    by blast
  then have "map_option (map_sum id (\<lambda>s'. (score s', board s', lines_cleared s')))
     (hard_drop ?s) = Some (Inr (36, landed_O_board, 0))"
    by (simp add: example_game_def)
  with wf ne rp show ?thesis by blast
qed

text \<open>
  Claim C9 (as amended). \<open>get_ghost_y\<close> returns the row \<open>g \<ge> current_y\<close> at which a
  descent from \<open>current_y\<close> stops: the piece fits in every row below \<open>current_y\<close> down
  to \<open>g\<close> and not in row \<open>g + 1\<close>. The game object comes back unchanged. When the
  piece fits at \<open>current_y\<close> it fits in every row from there to \<open>g\<close>, so \<open>g\<close> is the
  lowest valid position reachable by moving straight down.
\<close>

theorem get_ghost_y_lands:
  assumes "wf_board (board s)" and "current_piece s \<noteq> []"
  shows "\<exists>g. get_ghost_y s = Some (Inr (g, s)) \<and> current_y s \<le> g \<and>
           (\<forall>y. current_y s < y \<and> y \<le> g \<longrightarrow> fits s y) \<and> \<not> fits s (g + 1) \<and>
           (fits s (current_y s) \<longrightarrow> (\<forall>y. current_y s \<le> y \<and> y \<le> g \<longrightarrow> fits s y))"
proof -
  from ghost_loop_lands [OF assms, of "current_y s"] obtain g where
    l: "landing s (current_y s) g" and run: "ghost_loop s (current_y s) = Some (Inr (g, s))"
    by blast
  have "fits s y" if "fits s (current_y s)" "current_y s \<le> y \<and> y \<le> g" for y
  proof (cases "y = current_y s")
    case True
    with that show ?thesis by simp
  next
    case False
    with that have "current_y s < y \<and> y \<le> g" by simp
    with l show ?thesis by (simp add: landing_def)
  qed
  with l run show ?thesis
    by (auto simp: get_ghost_y_def landing_def)
qed

theorem get_ghost_y_lands_witness:
  "wf_board (board (example_game empty_board Kind_O 0 3 0)) \<and>
   current_piece (example_game empty_board Kind_O 0 3 0) \<noteq> [] \<and>
   fits (example_game empty_board Kind_O 0 3 0) 0 \<and>
   get_ghost_y (example_game empty_board Kind_O 0 3 0) =
     Some (Inr (18, example_game empty_board Kind_O 0 3 0)) \<and>
   fits (example_game empty_board Kind_O 0 3 0) 18 \<and>
   \<not> fits (example_game empty_board Kind_O 0 3 0) 19"
proof -
  let ?s = "example_game empty_board Kind_O 0 3 0"
  have wf: "wf_board (board ?s)"
    by (simp add: example_game_def wf_empty_board)
  have ne: "current_piece ?s \<noteq> []"
    by (simp add: example_game_def)
  have f0: "fits ?s 0" and g18: "map_option (map_sum id fst) (get_ghost_y ?s) = Some (Inr 18)"
    by code_simp+
  from get_ghost_y_lands [OF wf ne] obtain g where
    run: "get_ghost_y ?s = Some (Inr (g, ?s))" and "\<not> fits ?s (g + 1)"
    and "fits ?s (current_y ?s) \<longrightarrow> (\<forall>y. current_y ?s \<le> y \<and> y \<le> g \<longrightarrow> fits ?s y)"
    and "current_y ?s \<le> g"
    by blast
  moreover from run g18 have "g = 18" by simp
  moreover have "current_y ?s = 0" by (simp add: example_game_def)
  ultimately have "get_ghost_y ?s = Some (Inr (18, ?s))" "fits ?s 18" "\<not> fits ?s 19"
    using f0 by auto
  with wf ne f0 show ?thesis by blast
qed

text \<open>
  Claim C9 as stated says that the returned row is a valid position in every game state.
  After the failed spawn of a T piece on a board whose column 4 is occupied, the state that
  \<open>draw_board\<close> queries under the game-over box, \<open>get_ghost_y\<close> returns 0 and the piece
  at row 0 overlaps the column.
\<close>

theorem get_ghost_y_invalid_counterexample:
  "spawn_piece blocked_state = Inr game_over_state \<and>
   map_option (map_sum id fst) (get_ghost_y game_over_state) = Some (Inr 0) \<and>
   is_valid_position (board game_over_state) (current_x game_over_state) 0
     (current_piece game_over_state) = Inr False"
proof -
  have "spawn_piece blocked_state = Inr game_over_state"
    by (simp add: spawn_piece_def get_next_piece_type_def blocked_state_def game_over_state_def
        example_game_def blocked_board_def BOARD_WIDTH_def BOARD_HEIGHT_def py_get_def
        py_index_def nth_append)
  moreover have "map_option (map_sum id fst) (get_ghost_y game_over_state) = Some (Inr 0)"
    by code_simp
  moreover have "is_valid_position (board game_over_state) (current_x game_over_state) 0
     (current_piece game_over_state) = Inr False"
    by code_simp
  ultimately show ?thesis by blast
qed

lemma catalog_rows:
  "p \<in> set (TETROMINOES k) \<Longrightarrow> p \<noteq> [] \<and> (\<forall>(px, py) \<in> set p. 0 \<le> py)"
  using catalog_layouts [of p k] by fastforce

lemma piece_in_catalog_mem:
  "piece_in_catalog s \<Longrightarrow> current_piece s \<in> set (TETROMINOES (current_type s))"
  by (simp add: piece_in_catalog_def length_TETROMINOES nat_less_iff)

text \<open>
  Claim C10 (as amended). Every layout of the catalog is non-empty with row offsets
  \<open>py \<ge> 0\<close>. For a piece of the catalog on a playfield of 20 rows of 10 cells,
  \<open>is_valid_position\<close> is false as soon as \<open>y + py \<ge> 20\<close> for one of its cells, and
  the loops of \<open>hard_drop\<close> and \<open>get_ghost_y\<close> return: after \<open>d > 0\<close> successful
  steps the offset row \<open>current_y + d\<close> is below \<open>BOARD_HEIGHT\<close>. So the number of
  steps is below the board height when \<open>current_y \<ge> 0\<close>, and below
  \<open>BOARD_HEIGHT - current_y\<close> when an upward kick has left \<open>current_y\<close> negative.
\<close>

theorem drop_loops_terminate:
  "(\<forall>k. \<forall>p \<in> set (TETROMINOES k). p \<noteq> [] \<and> (\<forall>(px, py) \<in> set p. 0 \<le> py)) \<and>
   (wf_board (board s) \<and> piece_in_catalog s \<longrightarrow>
      (\<forall>y. (\<exists>(px, py) \<in> set (current_piece s). BOARD_HEIGHT \<le> y + py) \<longrightarrow>
            is_valid_position (board s) (current_x s) y (current_piece s) = Inr False) \<and>
      (\<exists>s1 d. hard_drop_loop s 0 = Some (Inr (s1, d)) \<and> 0 \<le> d \<and>
               (d = 0 \<or> current_y s + d < BOARD_HEIGHT) \<and>
               (0 \<le> current_y s \<longrightarrow> d < BOARD_HEIGHT)) \<and>
      (\<exists>r. hard_drop s = Some r) \<and>
      (\<exists>g. get_ghost_y s = Some (Inr (g, s)) \<and> current_y s \<le> g \<and>
           (g = current_y s \<or> g < BOARD_HEIGHT) \<and>
           (0 \<le> current_y s \<longrightarrow> g - current_y s < BOARD_HEIGHT)))"
proof -
  have catalog: "\<forall>k. \<forall>p \<in> set (TETROMINOES k). p \<noteq> [] \<and> (\<forall>(px, py) \<in> set p. 0 \<le> py)"
    using catalog_rows by blast
  have loops: "(\<forall>y. (\<exists>(px, py) \<in> set (current_piece s). BOARD_HEIGHT \<le> y + py) \<longrightarrow>
            is_valid_position (board s) (current_x s) y (current_piece s) = Inr False) \<and>
      (\<exists>s1 d. hard_drop_loop s 0 = Some (Inr (s1, d)) \<and> 0 \<le> d \<and>
               (d = 0 \<or> current_y s + d < BOARD_HEIGHT) \<and>
               (0 \<le> current_y s \<longrightarrow> d < BOARD_HEIGHT)) \<and>
      (\<exists>r. hard_drop s = Some r) \<and>
      (\<exists>g. get_ghost_y s = Some (Inr (g, s)) \<and> current_y s \<le> g \<and>
           (g = current_y s \<or> g < BOARD_HEIGHT) \<and>
           (0 \<le> current_y s \<longrightarrow> g - current_y s < BOARD_HEIGHT))"
    if h: "wf_board (board s) \<and> piece_in_catalog s"
  proof -
    from h have wf: "wf_board (board s)" and cat: "piece_in_catalog s" by blast+
    from catalog_rows [OF piece_in_catalog_mem [OF cat]]
    have ne: "current_piece s \<noteq> []" and rows: "\<forall>(px, py) \<in> set (current_piece s). 0 \<le> py"
      by blast+
    define c where "c = hd (current_piece s)"
    with ne have c: "c \<in> set (current_piece s)" by simp
    with rows have c0: "0 \<le> snd c" by auto
    have bottom: "is_valid_position (board s) (current_x s) y (current_piece s) = Inr False"
      if "\<exists>(px, py) \<in> set (current_piece s). BOARD_HEIGHT \<le> y + py" for y
    proof -
      from that obtain px py where "(px, py) \<in> set (current_piece s)" "BOARD_HEIGHT \<le> y + py"
        by blast
      with fits_below_bottom [OF wf, of "(px, py)" y] have "\<not> fits s y" by auto
      then show ?thesis by (simp add: fits_wf [OF wf])
    qed
    have bound: "g = current_y s \<or> g < BOARD_HEIGHT" if "landing s (current_y s) g" for g
    proof (cases "g = current_y s")
      case False
      with that have "fits s g" by (simp add: landing_def)
      from fits_below_bottom [OF wf c this] c0 show ?thesis by simp
    qed simp
    from hard_drop_loop_lands [OF wf ne, of 0] obtain g where
      l: "landing s (current_y s) g"
      and loop: "hard_drop_loop s 0 = Some (Inr (s\<lparr>current_y := g\<rparr>, g - current_y s))"
      by auto
    from l have "current_y s \<le> g" by (simp add: landing_def)
    with bound [OF l] loop
    have drop: "\<exists>s1 d. hard_drop_loop s 0 = Some (Inr (s1, d)) \<and> 0 \<le> d \<and>
               (d = 0 \<or> current_y s + d < BOARD_HEIGHT) \<and>
               (0 \<le> current_y s \<longrightarrow> d < BOARD_HEIGHT)"
      by (intro exI [of _ "s\<lparr>current_y := g\<rparr>"] exI [of _ "g - current_y s"])
        (auto simp: BOARD_HEIGHT_def)
    from loop have whole: "\<exists>r. hard_drop s = Some r"
      by (simp add: hard_drop_def)
    from ghost_loop_lands [OF wf ne, of "current_y s"] obtain g' where
      l': "landing s (current_y s) g'" and run: "get_ghost_y s = Some (Inr (g', s))"
      by (auto simp: get_ghost_y_def)
    from l' have "current_y s \<le> g'" by (simp add: landing_def)
    with bound [OF l'] run
    have ghost: "\<exists>g. get_ghost_y s = Some (Inr (g, s)) \<and> current_y s \<le> g \<and>
           (g = current_y s \<or> g < BOARD_HEIGHT) \<and>
           (0 \<le> current_y s \<longrightarrow> g - current_y s < BOARD_HEIGHT)"
      by (intro exI [of _ g']) (auto simp: BOARD_HEIGHT_def)
    from bottom drop whole ghost show ?thesis by blast
  qed
  from catalog loops show ?thesis by blast
qed

theorem drop_loops_terminate_witness:
  "wf_board (board wall_state) \<and> piece_in_catalog wall_state \<and>
   map_option (map_sum id snd) (hard_drop_loop wall_state 0) = Some (Inr 11) \<and>
   map_option (map_sum id fst) (get_ghost_y wall_state) = Some (Inr 16) \<and>
   (\<exists>s1 d. hard_drop_loop wall_state 0 = Some (Inr (s1, d)) \<and> 0 \<le> d \<and>
            (d = 0 \<or> current_y wall_state + d < BOARD_HEIGHT) \<and>
            (0 \<le> current_y wall_state \<longrightarrow> d < BOARD_HEIGHT)) \<and>
   (\<exists>r. hard_drop wall_state = Some r) \<and>
   (\<exists>g. get_ghost_y wall_state = Some (Inr (g, wall_state)) \<and> current_y wall_state \<le> g \<and>
        (g = current_y wall_state \<or> g < BOARD_HEIGHT) \<and>
        (0 \<le> current_y wall_state \<longrightarrow> g - current_y wall_state < BOARD_HEIGHT))"
proof -
  have wf: "wf_board (board wall_state)"
    by (simp add: wall_state_def example_game_def wf_empty_board)
  have cat: "piece_in_catalog wall_state"
    by (simp add: piece_in_catalog_def wall_state_def example_game_def)
  have run: "map_option (map_sum id snd) (hard_drop_loop wall_state 0) = Some (Inr 11)"
    "map_option (map_sum id fst) (get_ghost_y wall_state) = Some (Inr 16)"
    by code_simp+
  from drop_loops_terminate [of wall_state] wf cat run show ?thesis by blast
qed

text \<open>
  Claim C10 as stated bounds the number of steps by the board height in every game state.
  On a board whose left columns are stacked to the top, a T piece at its spawn position is
  lifted three rows by the upward wall kick of \<open>rotate\<close>, moved over the three empty
  columns on the right, and then falls 21 rows, from \<open>current_y = -3\<close> to 18.
\<close>

theorem drop_exceeds_height_counterexample:
  "wf_board (board (example_game kick_board Kind_T 0 3 0)) \<and>
   piece_in_catalog (example_game kick_board Kind_T 0 3 0) \<and>
   fits (example_game kick_board Kind_T 0 3 0) 0 \<and>
   map_sum id current_type (play kick_commands (example_game kick_board Kind_T 0 3 0)) =
     Inr Kind_T \<and>
   map_sum id current_rotation (play kick_commands (example_game kick_board Kind_T 0 3 0)) =
     Inr 0 \<and>
   map_sum id current_x (play kick_commands (example_game kick_board Kind_T 0 3 0)) = Inr 7 \<and>
   map_sum id current_y (play kick_commands (example_game kick_board Kind_T 0 3 0)) =
     Inr (- 3) \<and>
   map_sum id piece_in_catalog (play kick_commands (example_game kick_board Kind_T 0 3 0)) =
     Inr True \<and>
   drop_distance_after kick_commands (example_game kick_board Kind_T 0 3 0) = Some (Inr 21) \<and>
   BOARD_HEIGHT < 21"
  by code_simp

subsection \<open>The invariant of the game object\<close>

text \<open>
  \<open>spawn_piece\<close> establishes the invariant on any board of the right shape, and every
  method the driver calls returns without raising and keeps it. The hypotheses of the
  theorems above are parts of this invariant.
\<close>

lemma invariant_spawn_piece:
  assumes "wf_board (board s)" and "rng_permutes s"
  shows "\<exists>s'. spawn_piece s = Inr s' \<and> game_invariant s'"
proof -
  from spawning_kind_exists [OF assms(2)] obtain k where "spawning_kind s k" by blast
  from spawn_piece_wf [OF assms this] obtain s' where "spawn_piece s = Inr s'"
    and "board s' = board s" and "rng s' = rng s" and "current_rotation s' = 0"
    and "current_type s' = k" and "current_piece s' = TETROMINOES k ! 0"
    by auto
  with assms show ?thesis
    by (auto simp: game_invariant_def piece_in_catalog_def rng_permutes_def)
qed

lemma invariant_move:
  assumes "game_invariant s"
  shows "\<exists>moved s'. move dx dy s = Inr (moved, s') \<and> game_invariant s'"
  using assms
  by (auto simp: move_def game_invariant_def is_valid_position_wf piece_in_catalog_def
      rng_permutes_def Let_def)

lemma invariant_rotate:
  assumes "game_invariant s"
  shows "\<exists>rotated s'. rotate s = Inr (rotated, s') \<and> game_invariant s'"
proof -
  from assms have wf: "wf_board (board s)" by (simp add: game_invariant_def)
  have "game_invariant (snd (rotate_spec s))"
    using assms
    by (auto simp: rotate_spec_def game_invariant_def piece_in_catalog_def rng_permutes_def
        Let_def split: option.splits)
  with rotate_eq_spec [OF wf] show ?thesis
    by (cases "rotate_spec s") auto
qed

lemma invariant_lock_piece:
  assumes "game_invariant s"
  shows "\<exists>s'. lock_piece s = Inr s' \<and> game_invariant s'"
proof -
  from assms have wf: "wf_board (board s)" and rp: "rng_permutes s"
    by (simp_all add: game_invariant_def)
  from lock_cells_wf [OF wf] obtain b where
    cells: "lock_cells (current_piece s) (current_x s) (current_y s) (current_type s) (board s)
              = Inr b"
    and wfb: "wf_board b"
    by blast
  from wfb have "wf_board (board (s\<lparr>board := b\<rparr>))" by simp
  from clear_lines_total [OF this] obtain s1 where
    clear: "clear_lines (s\<lparr>board := b\<rparr>) = Inr (None, s1)"
    and wf1: "wf_board (board s1)" and r1: "rng s1 = rng s"
    by auto
  from rp r1 have rp1: "rng_permutes s1" by (simp add: rng_permutes_def)
  from invariant_spawn_piece [OF wf1 rp1] show ?thesis
    by (simp add: lock_piece_def cells clear)
qed

lemma invariant_hard_drop:
  assumes "game_invariant s"
  shows "\<exists>s'. hard_drop s = Some (Inr s') \<and> game_invariant s'"
proof -
  from assms have wf: "wf_board (board s)" and cat: "piece_in_catalog s"
    by (simp_all add: game_invariant_def)
  from catalog_rows [OF piece_in_catalog_mem [OF cat]] have ne: "current_piece s \<noteq> []"
    by blast
  from hard_drop_loop_lands [OF wf ne, of 0] obtain g where
    loop: "hard_drop_loop s 0 = Some (Inr (s\<lparr>current_y := g\<rparr>, g - current_y s))"
    by auto
  let ?s1 = "s\<lparr>current_y := g, score := score s + (g - current_y s) * 2\<rparr>"
  have "game_invariant ?s1"
    using assms by (simp add: game_invariant_def piece_in_catalog_def rng_permutes_def)
  from invariant_lock_piece [OF this] show ?thesis
    by (simp add: hard_drop_def loop)
qed

lemma invariant_play:
  "game_invariant s \<Longrightarrow> \<exists>s'. play cs s = Inr s' \<and> game_invariant s'"
proof (induction cs arbitrary: s)
  case Nil
  then show ?case by simp
next
  case (Cons c cs)
  have "\<exists>s1. handle_key c s = Inr s1 \<and> game_invariant s1"
  proof (cases c)
    case MoveLeft
    with invariant_move [OF Cons.prems, of "- 1" 0] show ?thesis by auto
  next
    case MoveRight
    with invariant_move [OF Cons.prems, of 1 0] show ?thesis by auto
  next
    case Rotate
    with invariant_rotate [OF Cons.prems] show ?thesis by auto
  qed
  then obtain s1 where "handle_key c s = Inr s1" "game_invariant s1" by blast
  with Cons.IH [of s1] show ?case by simp
qed

end
